theory Spec2Isabelle
  imports Main "HOL-Library.Word" "HOL-Library.Char_ord" "HOL-Library.List_Lexorder"
    "HOL-Library.Multiset"
begin

unbundle bit_operations_syntax

section \<open>Bytes, digests and failures\<close>

text \<open>
  Go's \<^verbatim>\<open>[]byte\<close> is a list of 8-bit words, Go's \<^verbatim>\<open>string\<close> a list of
  \<^typ>\<open>char\<close> (also 8 bits wide), and \<^verbatim>\<open>[]byte(s)\<close> converts between them.
  A digest \<^verbatim>\<open>[sha256.Size]byte\<close> is a byte list that is meant to have 32 entries.

  \<^verbatim>\<open>crypto/sha256\<close> and \<^verbatim>\<open>crypto/hmac\<close> belong to Go's standard library and
  not to this repository: every function below that calls \<^verbatim>\<open>sha256.Sum256\<close> takes
  the digest function as its first argument \<open>H\<close>, and \<^verbatim>\<open>CreateSignature\<close> takes the
  keyed hash \<open>M\<close> (key first, message second). The streaming \<^verbatim>\<open>hash.Hash\<close> value
  \<^verbatim>\<open>runningHash\<close> is the list of bytes written to it so far, and \<^verbatim>\<open>Sum\<close> is
  \<open>H\<close> of that list.
\<close>

type_synonym byte = "8 word"
type_synonym bytes = "byte list"

text \<open>
  A run-time panic of the Go program: an index or a slice bound out of range. The error
  values are those of the standard library functions modelled below; no function of the
  repository creates an error itself.
\<close>

datatype panic = IndexOutOfRange

datatype error = ErrLength | InvalidByteError char | EscapeError string | SemicolonError

definition bind :: "panic + 'a \<Rightarrow> ('a \<Rightarrow> panic + 'b) \<Rightarrow> panic + 'b" where
  "bind m f = (case m of Inl p \<Rightarrow> Inl p | Inr x \<Rightarrow> f x)"

text \<open>\<^verbatim>\<open>xs[i]\<close> for a Go \<^verbatim>\<open>int\<close> index, and \<^verbatim>\<open>xs[i] = v\<close>.\<close>

definition index :: "'a list \<Rightarrow> int \<Rightarrow> panic + 'a" where
  "index xs i = (if 0 \<le> i \<and> i < int (length xs) then Inr (xs ! nat i) else Inl IndexOutOfRange)"

definition store :: "'a list \<Rightarrow> int \<Rightarrow> 'a \<Rightarrow> panic + 'a list" where
  "store xs i v = (if 0 \<le> i \<and> i < int (length xs) then Inr (xs[nat i := v]) else Inl IndexOutOfRange)"

definition bytes_of :: "string \<Rightarrow> bytes" where
  "bytes_of s = map (\<lambda>c. of_nat (of_char c)) s"

definition zero_digest :: bytes where
  "zero_digest = replicate 32 0"

section \<open>glacier/treehash.go: treeHash\<close>

text \<open>
  \<^verbatim>\<open>treeHash\<close> works in place. The slice header \<^verbatim>\<open>nodes\<close> is local to the call,
  its backing array is the caller's: the model carries the backing array \<open>arr\<close>
  (all entries the caller's slice can see) and the current length \<open>n\<close> of the local
  slice, and returns the root together with the array as the call leaves it.

  The inner loop, \<^verbatim>\<open>for i := 0; i < len(nodes)/2; i++\<close>:
\<close>

function combine_loop :: "(bytes \<Rightarrow> bytes) \<Rightarrow> nat \<Rightarrow> nat \<Rightarrow> bytes list \<Rightarrow> bytes list" where
  "combine_loop H n i arr =
     (if i < n div 2
      then combine_loop H n (Suc i) (arr[i := H (arr ! (i * 2) @ arr ! (i * 2 + 1))])
      else arr)"
  by pat_completeness auto
termination
  by (relation "measure (\<lambda>(H, n, i, arr). n div 2 - i)") auto

declare combine_loop.simps [simp del]

text \<open>One pass of the outer loop body: the new length and the array.\<close>

definition treeHash_step :: "(bytes \<Rightarrow> bytes) \<Rightarrow> nat \<Rightarrow> bytes list \<Rightarrow> nat \<times> bytes list" where
  "treeHash_step H n arr =
     (let arr' = combine_loop H n 0 arr
      in if n mod 2 = 0 then (n div 2, arr')
         else (n div 2 + 1, arr'[n div 2 := arr' ! (n - 1)]))"

text \<open>The outer loop, \<^verbatim>\<open>for len(nodes) > 1\<close>.\<close>

function treeHash_loop :: "(bytes \<Rightarrow> bytes) \<Rightarrow> nat \<Rightarrow> bytes list \<Rightarrow> bytes list" where
  "treeHash_loop H n arr =
     (if 1 < n
      then (case treeHash_step H n arr of (n', arr') \<Rightarrow> treeHash_loop H n' arr')
      else arr)"
  by pat_completeness auto
termination
  apply (relation "measure (\<lambda>(H, n, arr). n)")
   apply simp
  apply (auto simp: treeHash_step_def Let_def split: if_splits)
  apply arith
  done

declare treeHash_loop.simps [simp del]

text \<open>
  \<^verbatim>\<open>return nodes[0]\<close> panics on an empty slice. The result is the root and the
  caller's array after the call.
\<close>

definition treeHash :: "(bytes \<Rightarrow> bytes) \<Rightarrow> bytes list \<Rightarrow> panic + (bytes \<times> bytes list)" where
  "treeHash H nodes =
     (let arr = treeHash_loop H (length nodes) nodes
      in if nodes = [] then Inl IndexOutOfRange else Inr (arr ! 0, arr))"

definition treeHash_root :: "(bytes \<Rightarrow> bytes) \<Rightarrow> bytes list \<Rightarrow> panic + bytes" where
  "treeHash_root H nodes = map_sum id fst (treeHash H nodes)"

subsection \<open>The reduction as the specification words it\<close>

text \<open>
  Each adjacent pair is hashed to its parent; with an odd count the last node is carried
  to the new level unchanged.
\<close>

fun level_spec :: "(bytes \<Rightarrow> bytes) \<Rightarrow> bytes list \<Rightarrow> bytes list" where
  "level_spec H (a # b # rest) = H (a @ b) # level_spec H rest"
| "level_spec H [a] = [a]"
| "level_spec H [] = []"

text \<open>Repeat while more than one node remains; the one that remains is the root.\<close>

function reduce_spec :: "(bytes \<Rightarrow> bytes) \<Rightarrow> bytes list \<Rightarrow> bytes option" where
  "reduce_spec H xs =
     (if xs = [] then None
      else if length xs = 1 then Some (hd xs)
      else reduce_spec H (level_spec H xs))"
  by pat_completeness auto
termination
proof (relation "measure (\<lambda>(H, xs). length xs)")
  fix H :: "bytes \<Rightarrow> bytes" and xs :: "bytes list"
  assume "xs \<noteq> []" and "length xs \<noteq> 1"
  then have "1 < length xs" by (cases xs) auto
  then have "(length xs + 1) div 2 < length xs" by arith
  moreover have "length (level_spec H ys) = (length ys + 1) div 2" for ys
    by (induction H ys rule: level_spec.induct) auto
  ultimately show "((H, level_spec H xs), (H, xs)) \<in> measure (\<lambda>(H, xs). length xs)"
    by simp
qed simp

declare reduce_spec.simps [simp del]

section \<open>encoding/hex, as the standard library has it\<close>

definition hextable :: string where
  "hextable = ''0123456789abcdef''"

definition EncodeToString :: "bytes \<Rightarrow> string" where
  "EncodeToString src =
     concat (map (\<lambda>v. [hextable ! unat (drop_bit 4 v), hextable ! unat (v AND 0x0f)]) src)"

definition fromHexChar :: "char \<Rightarrow> byte option" where
  "fromHexChar c =
     (let n = (of_char c :: nat)
      in if 48 \<le> n \<and> n \<le> 57 then Some (of_nat (n - 48))
         else if 97 \<le> n \<and> n \<le> 102 then Some (of_nat (n - 97 + 10))
         else if 65 \<le> n \<and> n \<le> 70 then Some (of_nat (n - 65 + 10))
         else None)"

text \<open>
  \<^verbatim>\<open>hex.Decode(dst, src)\<close> writes one byte of \<open>dst\<close> per pair of digits, stops at
  the first character that is no hex digit, and reports an odd length last. It returns
  \<open>dst\<close> as written so far, the count and the error; writing past the end of \<open>dst\<close>
  panics.
\<close>

fun Decode :: "bytes \<Rightarrow> nat \<Rightarrow> string \<Rightarrow> panic + (bytes \<times> nat \<times> error option)" where
  "Decode dst i (p # q # src) =
     (case fromHexChar p of
        None \<Rightarrow> Inr (dst, i, Some (InvalidByteError p))
      | Some a \<Rightarrow>
         (case fromHexChar q of
            None \<Rightarrow> Inr (dst, i, Some (InvalidByteError q))
          | Some b \<Rightarrow>
             bind (store dst (int i) (push_bit 4 a OR b)) (\<lambda>dst'. Decode dst' (Suc i) src)))"
| "Decode dst i [p] =
     (case fromHexChar p of
        None \<Rightarrow> Inr (dst, i, Some (InvalidByteError p))
      | Some a \<Rightarrow> Inr (dst, i, Some ErrLength))"
| "Decode dst i [] = Inr (dst, i, None)"

section \<open>glacier/treehash.go: MultiTreeHasher\<close>

record MultiTreeHasher =
  part_nodes :: "bytes list"

text \<open>
  \<^verbatim>\<open>Add\<close> decodes into a zeroed 32-byte array and appends the array whatever
  \<^verbatim>\<open>hex.Decode\<close> returned: both results of the call are dropped.
\<close>

definition Add :: "MultiTreeHasher \<Rightarrow> string \<Rightarrow> panic + MultiTreeHasher" where
  "Add t hash =
     bind (Decode (replicate 32 0) 0 hash)
       (\<lambda>(b, n, err). Inr (t\<lparr>part_nodes := part_nodes t @ [b]\<rparr>))"

text \<open>\<^verbatim>\<open>CreateHash\<close> returns the string; \<^verbatim>\<open>treeHash\<close> has worked on \<open>t.nodes\<close> in place.\<close>

definition CreateHash :: "(bytes \<Rightarrow> bytes) \<Rightarrow> MultiTreeHasher \<Rightarrow> panic + (string \<times> MultiTreeHasher)" where
  "CreateHash H t =
     (if length (part_nodes t) = 0 then Inr ('''', t)
      else bind (treeHash H (part_nodes t))
             (\<lambda>(rootHash, arr). Inr (EncodeToString rootHash, t\<lparr>part_nodes := arr\<rparr>)))"

section \<open>glacier/treehash.go: TreeHash\<close>

text \<open>
  The field \<^verbatim>\<open>th.treeHash\<close> is \<open>treeHash_field\<close> here (the function
  \<^verbatim>\<open>treeHash\<close> has the name), the methods \<^verbatim>\<open>TreeHash()\<close> and \<^verbatim>\<open>Hash()\<close> are
  \<open>TreeHash_TreeHash\<close> and \<open>TreeHash_Hash\<close>, and the field \<^verbatim>\<open>nodes\<close> of
  \<^verbatim>\<open>MultiTreeHasher\<close> is \<open>part_nodes\<close>.
\<close>

record TreeHash =
  remaining :: bytes
  nodes :: "bytes list"
  runningHash :: bytes
  treeHash_field :: bytes
  linearHash :: bytes

definition Reset :: "TreeHash \<Rightarrow> TreeHash" where
  "Reset th = th\<lparr>runningHash := [], remaining := [], nodes := [],
                  treeHash_field := zero_digest, linearHash := zero_digest\<rparr>"

definition NewTreeHash :: TreeHash where
  "NewTreeHash = Reset \<lparr>remaining = [], nodes = [], runningHash = [],
                         treeHash_field = zero_digest, linearHash = zero_digest\<rparr>"

definition MiB :: nat where
  "MiB = 2 ^ 20"

text \<open>The loop of \<^verbatim>\<open>Write\<close>, \<^verbatim>\<open>for len(p) >= 1<<20\<close>, on the nodes and the running hash.\<close>

function Write_loop :: "(bytes \<Rightarrow> bytes) \<Rightarrow> TreeHash \<Rightarrow> bytes \<Rightarrow> TreeHash \<times> bytes" where
  "Write_loop H th p =
     (if MiB \<le> length p
      then Write_loop H (th\<lparr>nodes := nodes th @ [H (take MiB p)],
                               runningHash := runningHash th @ take MiB p\<rparr>) (drop MiB p)
      else (th, p))"
  by pat_completeness auto
termination
  by (relation "measure (\<lambda>(H, th, p). length p)") (auto simp: MiB_def)

declare Write_loop.simps [simp del]

text \<open>
  \<^verbatim>\<open>Write\<close> returns the count and a nil error. \<^verbatim>\<open>p[:fill]\<close> panics when
  \<open>fill\<close> is negative, that is when more than 1 MiB is buffered.
\<close>

definition Write :: "(bytes \<Rightarrow> bytes) \<Rightarrow> TreeHash \<Rightarrow> bytes \<Rightarrow> panic + (TreeHash \<times> nat \<times> error option)" where
  "Write H th p =
     (let n = length p
      in if length (remaining th) + length p < MiB
         then Inr (th\<lparr>remaining := remaining th @ p\<rparr>, n, None)
         else
           let fill = int MiB - int (length (remaining th))
           in if fill < 0 \<or> int (length p) < fill then Inl IndexOutOfRange
              else
                let th1 = th\<lparr>remaining := remaining th @ take (nat fill) p\<rparr>;
                    p1 = drop (nat fill) p;
                    th2 = th1\<lparr>nodes := nodes th1 @ [H (remaining th1)],
                               runningHash := runningHash th1 @ remaining th1\<rparr>;
                    th3 = th2\<lparr>remaining := []\<rparr>;
                    (th4, p2) = Write_loop H th3 p1
                in Inr (th4\<lparr>remaining := remaining th4 @ p2\<rparr>, n, None))"

text \<open>
  \<^verbatim>\<open>Close\<close> hashes what is buffered as the last node, without emptying the buffer,
  and lets \<^verbatim>\<open>treeHash\<close> work on \<open>th.nodes\<close> in place.
\<close>

definition Close :: "(bytes \<Rightarrow> bytes) \<Rightarrow> TreeHash \<Rightarrow> panic + (TreeHash \<times> error option)" where
  "Close H th =
     (let th1 = (if 0 < length (remaining th)
                 then th\<lparr>nodes := nodes th @ [H (remaining th)],
                         runningHash := runningHash th @ remaining th\<rparr>
                 else th)
      in bind (if 0 < length (nodes th1)
               then bind (treeHash H (nodes th1))
                      (\<lambda>(root, arr). Inr (th1\<lparr>nodes := arr, treeHash_field := root\<rparr>))
               else Inr th1)
           (\<lambda>th2. Inr (th2\<lparr>linearHash := H (runningHash th2)\<rparr>, None)))"

definition TreeHash_TreeHash :: "TreeHash \<Rightarrow> bytes" where
  "TreeHash_TreeHash th = treeHash_field th"

definition TreeHash_Hash :: "TreeHash \<Rightarrow> bytes" where
  "TreeHash_Hash th = linearHash th"

text \<open>A caller's sequence of \<^verbatim>\<open>Write\<close> calls, stopping at a panic or an error.\<close>

fun Writes :: "(bytes \<Rightarrow> bytes) \<Rightarrow> TreeHash \<Rightarrow> bytes list \<Rightarrow> panic + TreeHash" where
  "Writes H th [] = Inr th"
| "Writes H th (p # ps) =
     bind (Write H th p)
       (\<lambda>(th', n, err). case err of None \<Rightarrow> Writes H th' ps | Some e \<Rightarrow> Inr th')"

section \<open>aws.go: encode\<close>

text \<open>
  The table \<^verbatim>\<open>unreserved\<close>, 128 entries, as \<^verbatim>\<open>init\<close> fills it from its
  string \<^verbatim>\<open>u\<close>.
\<close>

definition init_u :: string where
  "init_u = ''ABCDEFGHIJKLMNOPQRSTUVWXYZabcdefghijklmnopqrstuvwxyz01234567890-_.~''"

definition unreserved :: "bool list" where
  "unreserved = foldl (\<lambda>tab c. tab[of_char c := True]) (replicate 128 False) init_u"

text \<open>The constant \<^verbatim>\<open>hex\<close> of \<^verbatim>\<open>encode\<close>.\<close>

definition hex_upper :: string where
  "hex_upper = ''0123456789ABCDEF''"

text \<open>The test \<^verbatim>\<open>c > 127 || !unreserved[c]\<close>; the table is only read when \<open>c \<le> 127\<close>.\<close>

definition must_escape :: "char \<Rightarrow> panic + bool" where
  "must_escape c =
     (if 127 < (of_char c :: nat) then Inr True
      else bind (index unreserved (int (of_char c))) (\<lambda>u. Inr (\<not> u)))"

text \<open>
  The first loop of \<^verbatim>\<open>encode\<close>. Its counter starts at 0 and goes up by one, so the
  test \<^verbatim>\<open>i != len(s)\<close> is \<open>i < length s\<close>.
\<close>

function encode_scan :: "string \<Rightarrow> nat \<Rightarrow> panic + bool" where
  "encode_scan s i =
     (if i < length s
      then bind (index s (int i))
             (\<lambda>c. bind (must_escape c) (\<lambda>b. if b then Inr True else encode_scan s (Suc i)))
      else Inr False)"
  by pat_completeness auto
termination
  by (relation "measure (\<lambda>(s, i). length s - i)") auto

declare encode_scan.simps [simp del]

text \<open>The second loop, writing into the buffer \<open>e\<close> at \<open>ei\<close>.\<close>

function encode_loop :: "string \<Rightarrow> string \<Rightarrow> int \<Rightarrow> nat \<Rightarrow> panic + (string \<times> int)" where
  "encode_loop s e ei i =
     (if i < length s
      then bind (index s (int i)) (\<lambda>c.
           bind (must_escape c) (\<lambda>b.
             if b
             then bind (store e ei (CHR ''%'')) (\<lambda>encode_spec_examples.
                  bind (index hex_upper (int (of_char c div 16))) (\<lambda>h1.
                  bind (store encode_spec_examples (ei + 1) h1) (\<lambda>e2.
                  bind (index hex_upper (int (of_char c mod 16))) (\<lambda>h2.
                  bind (store e2 (ei + 2) h2) (\<lambda>e3.
                  encode_loop s e3 (ei + 3) (Suc i))))))
             else bind (store e ei c) (\<lambda>encode_spec_examples. encode_loop s encode_spec_examples (ei + 1) (Suc i))))
      else Inr (e, ei))"
  by pat_completeness auto
termination
  by (relation "measure (\<lambda>(s, e, ei, i). length s - i)") auto

declare encode_loop.simps [simp del]

text \<open>\<^verbatim>\<open>s[lo:]\<close> and \<^verbatim>\<open>s[:hi]\<close>.\<close>

definition slice_from :: "'a list \<Rightarrow> int \<Rightarrow> panic + 'a list" where
  "slice_from s lo = (if 0 \<le> lo \<and> lo \<le> int (length s) then Inr (drop (nat lo) s) else Inl IndexOutOfRange)"

definition slice_to :: "'a list \<Rightarrow> int \<Rightarrow> panic + 'a list" where
  "slice_to s hi = (if 0 \<le> hi \<and> hi \<le> int (length s) then Inr (take (nat hi) s) else Inl IndexOutOfRange)"

definition encode :: "string \<Rightarrow> panic + string" where
  "encode s =
     bind (encode_scan s 0) (\<lambda>enc.
       if \<not> enc then Inr s
       else bind (encode_loop s (replicate (length s * 3) (CHR 0x00)) 0 0)
              (\<lambda>(e, ei). slice_to e ei))"

section \<open>aws.go: CreateSignature and NewSignature\<close>

text \<open>
  An \<^verbatim>\<open>hmac\<close> value is its key and the bytes written so far; \<^verbatim>\<open>Sum(b)\<close> appends the
  keyed hash \<open>M key data\<close> to \<open>b\<close> and leaves the value as it is; \<^verbatim>\<open>Write\<close> never
  returns an error.
\<close>

record hmac =
  hmac_key :: bytes
  hmac_data :: bytes

definition hmac_New :: "bytes \<Rightarrow> hmac" where
  "hmac_New key = \<lparr>hmac_key = key, hmac_data = []\<rparr>"

definition hmac_Write :: "hmac \<Rightarrow> bytes \<Rightarrow> hmac \<times> nat \<times> error option" where
  "hmac_Write h p = (h\<lparr>hmac_data := hmac_data h @ p\<rparr>, length p, None)"

definition hmac_Sum :: "(bytes \<Rightarrow> bytes \<Rightarrow> bytes) \<Rightarrow> hmac \<Rightarrow> bytes \<Rightarrow> bytes" where
  "hmac_Sum M h b = b @ M (hmac_key h) (hmac_data h)"

text \<open>
  \<^verbatim>\<open>v4SecretKey\<close> is a package-level name that no file under \<^verbatim>\<open>src/\<close> declares: it
  is the second argument here. \<^verbatim>\<open>fmt.Sprintf("%x", b)\<close> is the lower-case hex text of
  \<open>b\<close>. The calls \<^verbatim>\<open>h.Sum(hh[:0])\<close> write into \<open>hh\<close> only.
\<close>

definition CreateSignature ::
  "(bytes \<Rightarrow> bytes \<Rightarrow> bytes) \<Rightarrow> string \<Rightarrow> string \<Rightarrow> string \<Rightarrow> string \<Rightarrow> bytes \<Rightarrow> error + bytes" where
  "CreateSignature M v4SecretKey date region service sts =
     (let h = hmac_New (bytes_of (''AWS4'' @ v4SecretKey));
          (h, n, err) = hmac_Write h (bytes_of date)
      in case err of Some e \<Rightarrow> Inl e | None \<Rightarrow>
         let h = hmac_New (hmac_Sum M h []);
             (h, n, err) = hmac_Write h (bytes_of region);
             hh = hmac_Sum M h [];
             h = hmac_New (hmac_Sum M h []);
             (h, n, err) = hmac_Write h (bytes_of service)
         in case err of Some e \<Rightarrow> Inl e | None \<Rightarrow>
            let h = hmac_New (hmac_Sum M h []);
                (h, n, err) = hmac_Write h (bytes_of ''aws4_request'');
                hh = hmac_Sum M h [];
                h = hmac_New (hmac_Sum M h []);
                (h, n, err) = hmac_Write h sts
            in case err of Some e \<Rightarrow> Inl e | None \<Rightarrow>
               let hh = hmac_Sum M h []
               in Inr (bytes_of (EncodeToString (hmac_Sum M h []))))"

record Keys =
  Access :: string
  Secret :: string

record Region =
  Region :: string
  Name :: string
  Glacier :: string

text \<open>
  \<^verbatim>\<open>NewSignature\<close> runs the same chain on \<^verbatim>\<open>k.Secret\<close> and returns \<^verbatim>\<open>nil\<close>; the
  second argument stands for \<^verbatim>\<open>t.Format("20060102")\<close>.
\<close>

definition NewSignature ::
  "(bytes \<Rightarrow> bytes \<Rightarrow> bytes) \<Rightarrow> Keys \<Rightarrow> string \<Rightarrow> Region \<Rightarrow> string \<Rightarrow> bytes option" where
  "NewSignature M k t r service =
     (let h = hmac_New (bytes_of (''AWS4'' @ Secret k));
          (h, n, err) = hmac_Write h (bytes_of t);
          h = hmac_New (hmac_Sum M h []);
          (h, n, err) = hmac_Write h (bytes_of (Name r));
          h = hmac_New (hmac_Sum M h []);
          (h, n, err) = hmac_Write h (bytes_of service);
          h = hmac_New (hmac_Sum M h []);
          (h, n, err) = hmac_Write h (bytes_of ''aws4_request'')
      in None)"

section \<open>path.Clean and strings.Split, as the standard library has them\<close>

text \<open>
  \<^verbatim>\<open>path.Clean\<close> reads the path from left to right and writes the cleaned path into
  \<open>out\<close>. A \<^verbatim>\<open>..\<close> element takes \<open>out\<close> back to the last slash, but not below
  \<open>dotdot\<close>:
\<close>

fun backtrack :: "string \<Rightarrow> nat \<Rightarrow> nat \<Rightarrow> nat" where
  "backtrack out dotdot 0 = 0"
| "backtrack out dotdot (Suc w) =
     (if dotdot < Suc w \<and> out ! Suc w \<noteq> CHR ''/'' then backtrack out dotdot w else Suc w)"

function Clean_loop :: "bool \<Rightarrow> nat \<Rightarrow> string \<Rightarrow> string \<Rightarrow> string" where
  "Clean_loop rooted dotdot out rest =
     (case rest of
        [] \<Rightarrow> out
      | c # t \<Rightarrow>
          if c = CHR ''/'' then Clean_loop rooted dotdot out t
          else if c = CHR ''.'' \<and> (t = [] \<or> hd t = CHR ''/'') then Clean_loop rooted dotdot out t
          else if c = CHR ''.'' \<and> hd t = CHR ''.'' \<and> (tl t = [] \<or> hd (tl t) = CHR ''/'')
          then (if dotdot < length out
                then Clean_loop rooted dotdot (take (backtrack out dotdot (length out - 1)) out) (tl t)
                else if \<not> rooted
                then (let out' = (if 0 < length out then out @ ''/'' else out) @ ''..''
                      in Clean_loop rooted (length out') out' (tl t))
                else Clean_loop rooted dotdot out (tl t))
          else (let out' = (if rooted \<and> length out \<noteq> 1 \<or> \<not> rooted \<and> length out \<noteq> 0
                            then out @ ''/'' else out)
                in Clean_loop rooted dotdot (out' @ takeWhile (\<lambda>x. x \<noteq> CHR ''/'') rest)
                     (dropWhile (\<lambda>x. x \<noteq> CHR ''/'') rest)))"
  by pat_completeness auto
termination
proof (relation "measure (\<lambda>(rooted, dotdot, out, rest). length rest)")
  fix rest :: string and c t
  assume "rest = c # t" and "c \<noteq> CHR ''/''"
  then have "length (dropWhile (\<lambda>x. x \<noteq> CHR ''/'') rest) \<le> length t"
    by (simp add: length_dropWhile_le)
  then show "((rooted, dotdot, out' @ takeWhile (\<lambda>x. x \<noteq> CHR ''/'') rest,
               dropWhile (\<lambda>x. x \<noteq> CHR ''/'') rest), (rooted, dotdot, out, rest))
             \<in> measure (\<lambda>(rooted, dotdot, out, rest). length rest)"
    for rooted :: bool and dotdot :: nat and out out' :: string
    using \<open>rest = c # t\<close> by simp
qed auto

declare Clean_loop.simps [simp del]

definition Clean :: "string \<Rightarrow> string" where
  "Clean path =
     (if path = [] then ''.''
      else
        let rooted = (hd path = CHR ''/'');
            out = (if rooted
                   then Clean_loop rooted 1 ''/'' (drop 1 path)
                   else Clean_loop rooted 0 [] path)
        in if length out = 0 then ''.'' else out)"

text \<open>\<^verbatim>\<open>strings.Split(s, "/")\<close>, for a separator of one character.\<close>

fun Split :: "char \<Rightarrow> string \<Rightarrow> string list" where
  "Split sep [] = [[]]"
| "Split sep (c # s) =
     (if c = sep then [] # Split sep s
      else (case Split sep s of p # ps \<Rightarrow> (c # p) # ps | [] \<Rightarrow> [[c]]))"

section \<open>aws.go: CreateCanonicalRequest, the canonical path (step 2)\<close>

text \<open>
  The loop \<^verbatim>\<open>for i := len(r.URL.Path) - 2; i > 0; i--\<close>. Both halves of its test
  read \<^verbatim>\<open>r.URL.Path[i]\<close>, once here.
\<close>

function ts_loop :: "string \<Rightarrow> int \<Rightarrow> panic + bool" where
  "ts_loop path i =
     (if 0 < i
      then bind (index path i)
             (\<lambda>c. if c \<noteq> CHR ''/'' \<and> c \<noteq> CHR ''.'' then Inr True else ts_loop path (i - 1))
      else Inr False)"
  by pat_completeness auto
termination
  by (relation "measure (\<lambda>(path, i). nat i)") auto

declare ts_loop.simps [simp del]

definition trailing_slash :: "string \<Rightarrow> panic + bool" where
  "trailing_slash path =
     bind (index path (int (length path) - 1))
       (\<lambda>c. if c = CHR ''/'' then ts_loop path (int (length path) - 2) else Inr False)"

text \<open>\<^verbatim>\<open>for i := range parts { cp += "/" + encode(parts[i]) }\<close>\<close>

fun cp_loop :: "string list \<Rightarrow> string \<Rightarrow> panic + string" where
  "cp_loop [] cp = Inr cp"
| "cp_loop (part # parts) cp = bind (encode part) (\<lambda>e. cp_loop parts (cp @ ''/'' @ e))"

definition CreateCanonicalRequest_cp :: "string \<Rightarrow> panic + string" where
  "CreateCanonicalRequest_cp path =
     bind (trailing_slash path) (\<lambda>ts.
     bind (slice_from (Clean path) 1) (\<lambda>rest.
     bind (cp_loop (Split (CHR ''/'') rest) []) (\<lambda>cp.
     Inr (if ts then cp @ ''/'' else cp))))"

section \<open>url.ParseQuery, as the standard library has it\<close>

definition ishex :: "char \<Rightarrow> bool" where
  "ishex c = (fromHexChar c \<noteq> None)"

definition unhex :: "char \<Rightarrow> nat" where
  "unhex c = (case fromHexChar c of Some v \<Rightarrow> unat v | None \<Rightarrow> 0)"

text \<open>
  \<^verbatim>\<open>url.QueryUnescape\<close>: \<^verbatim>\<open>%XX\<close> becomes a byte, \<^verbatim>\<open>+\<close> a space; the first
  \<^verbatim>\<open>%\<close> without two hex digits after it is an error.
\<close>

fun QueryUnescape :: "string \<Rightarrow> error + string" where
  "QueryUnescape [] = Inr []"
| "QueryUnescape (c # s) =
     (if c = CHR ''%''
      then (case s of
              a # b # s' \<Rightarrow>
                if ishex a \<and> ishex b
                then map_sum id ((#) (char_of (unhex a * 16 + unhex b))) (QueryUnescape s')
                else Inl (EscapeError (take 3 (c # s)))
            | _ \<Rightarrow> Inl (EscapeError (take 3 (c # s))))
      else if c = CHR ''+'' then map_sum id ((#) (CHR '' '')) (QueryUnescape s)
      else map_sum id ((#) c) (QueryUnescape s))"

text \<open>\<^verbatim>\<open>strings.Cut(s, sep)\<close>: the text before the first separator and the text after it.\<close>

definition Cut :: "char \<Rightarrow> string \<Rightarrow> string \<times> string" where
  "Cut sep s = (takeWhile (\<lambda>c. c \<noteq> sep) s, drop 1 (dropWhile (\<lambda>c. c \<noteq> sep) s))"

text \<open>
  \<^verbatim>\<open>url.Values\<close> is a Go map from a key to its values in the order they were added:
  an association list with one entry per key. \<^verbatim>\<open>m[key] = append(m[key], value)\<close>:
\<close>

fun append_value :: "(string \<times> string list) list \<Rightarrow> string \<Rightarrow> string \<Rightarrow> (string \<times> string list) list" where
  "append_value [] k v = [(k, [v])]"
| "append_value ((k', vs) # m) k v =
     (if k' = k then (k', vs @ [v]) # m else (k', vs) # append_value m k v)"

function parseQuery ::
  "(string \<times> string list) list \<Rightarrow> error option \<Rightarrow> string \<Rightarrow> (string \<times> string list) list \<times> error option" where
  "parseQuery m err query =
     (if query = [] then (m, err)
      else
        let (key, query') = Cut (CHR ''&'') query
        in if CHR '';'' \<in> set key then parseQuery m (Some SemicolonError) query'
           else if key = [] then parseQuery m err query'
           else
             let (key1, val) = Cut (CHR ''='') key
             in case QueryUnescape key1 of
                  Inl err1 \<Rightarrow> parseQuery m (if err = None then Some err1 else err) query'
                | Inr k \<Rightarrow>
                   (case QueryUnescape val of
                      Inl err1 \<Rightarrow> parseQuery m (if err = None then Some err1 else err) query'
                    | Inr v \<Rightarrow> parseQuery (append_value m k v) err query'))"
  by pat_completeness auto
termination
proof -
  have cut: "length (dropWhile P q) - Suc 0 < length q" if "q \<noteq> []" for P and q :: string
  proof -
    have "length (dropWhile P q) \<le> length q" by (rule length_dropWhile_le)
    moreover have "0 < length q" using that by simp
    ultimately show ?thesis by arith
  qed
  show ?thesis
    by (relation "measure (\<lambda>(m, err, query). length query)") (auto simp: Cut_def cut)
qed

declare parseQuery.simps [simp del]

definition ParseQuery :: "string \<Rightarrow> (string \<times> string list) list \<times> error option" where
  "ParseQuery query = parseQuery [] None query"

section \<open>aws.go: CreateCanonicalRequest, the canonical query string (step 3)\<close>

text \<open>\<^verbatim>\<open>for j := range parameters\<close>, for the key \<^verbatim>\<open>keys[i]\<close>.\<close>

fun parameters_loop :: "string \<Rightarrow> string list \<Rightarrow> nat \<Rightarrow> string \<Rightarrow> panic + string" where
  "parameters_loop key [] j cqs = Inr cqs"
| "parameters_loop key (p # ps) j cqs =
     (let cqs1 = (if 0 < j then cqs @ ''&'' else cqs)
      in bind (encode key) (\<lambda>ek.
         bind (encode p) (\<lambda>ep.
         parameters_loop key ps (Suc j) (cqs1 @ ek @ ''='' @ ep))))"

text \<open>\<^verbatim>\<open>for i := range keys\<close>; a key the map does not hold has no values.\<close>

fun keys_loop :: "(string \<times> string list) list \<Rightarrow> string list \<Rightarrow> nat \<Rightarrow> string \<Rightarrow> panic + string" where
  "keys_loop query [] i cqs = Inr cqs"
| "keys_loop query (k # ks) i cqs =
     (let cqs1 = (if 0 < i then cqs @ ''&'' else cqs);
          parameters = (case map_of query k of Some vs \<Rightarrow> vs | None \<Rightarrow> [])
      in bind (parameters_loop k (sort parameters) 0 cqs1) (\<lambda>cqs2.
         keys_loop query ks (Suc i) cqs2))"

text \<open>
  The keys of the map come in no fixed order and are sorted before use. The result is a
  panic, or the error of \<^verbatim>\<open>url.ParseQuery\<close>, or the canonical query string.
\<close>

definition CreateCanonicalRequest_cqs :: "string \<Rightarrow> panic + (error + string)" where
  "CreateCanonicalRequest_cqs RawQuery =
     (case ParseQuery RawQuery of
        (query, Some err) \<Rightarrow> Inr (Inl err)
      | (query, None) \<Rightarrow>
          bind (keys_loop query (sort (map fst query)) 0 []) (\<lambda>cqs. Inr (Inr cqs)))"

section \<open>Callers, a sample digest and the words of the specification\<close>

text \<open>
  A digest function for statements at concrete inputs, where \<open>H\<close> has to be a closed
  term: 32 bytes, a marker byte and then the first 31 bytes of the input, zero-filled.
  It shows the start of what was hashed.
\<close>

definition sample_Sum256 :: "bytes \<Rightarrow> bytes" where
  "sample_Sum256 bs = take 32 (1 # bs @ replicate 32 0)"

text \<open>
  The callers the claims speak of: \<open>k\<close> calls of \<^verbatim>\<open>Close\<close> in a row, and a fresh
  \<^verbatim>\<open>TreeHash\<close> that is written to piece by piece and then closed \<open>k\<close> times.
\<close>

fun Closes :: "(bytes \<Rightarrow> bytes) \<Rightarrow> TreeHash \<Rightarrow> nat \<Rightarrow> panic + TreeHash" where
  "Closes H th 0 = Inr th"
| "Closes H th (Suc k) = bind (Close H th) (\<lambda>(th', err). Closes H th' k)"

definition write_close_n :: "(bytes \<Rightarrow> bytes) \<Rightarrow> bytes list \<Rightarrow> nat \<Rightarrow> panic + TreeHash" where
  "write_close_n H ps k = bind (Writes H NewTreeHash ps) (\<lambda>th. Closes H th k)"

text \<open>
  Any history of calls on one \<^verbatim>\<open>TreeHash\<close>, in the order the caller makes them.
  \<^verbatim>\<open>Write\<close> and \<^verbatim>\<open>Close\<close> return a nil error whenever they return.
\<close>

datatype call = CallWrite bytes | CallClose | CallReset

fun calls :: "(bytes \<Rightarrow> bytes) \<Rightarrow> TreeHash \<Rightarrow> call list \<Rightarrow> panic + TreeHash" where
  "calls H th [] = Inr th"
| "calls H th (CallWrite p # cs) = bind (Write H th p) (\<lambda>(th', n, err). calls H th' cs)"
| "calls H th (CallClose # cs) = bind (Close H th) (\<lambda>(th', err). calls H th' cs)"
| "calls H th (CallReset # cs) = calls H (Reset th) cs"

text \<open>
  A multipart upload as its caller runs it: the hex tree hash of each part comes from a
  \<^verbatim>\<open>TreeHash\<close> of its own, the hashes are given to \<^verbatim>\<open>Add\<close> in part order on a
  new \<^verbatim>\<open>MultiTreeHasher\<close>, and \<^verbatim>\<open>CreateHash\<close> returns the result.
\<close>

fun Adds :: "MultiTreeHasher \<Rightarrow> string list \<Rightarrow> panic + MultiTreeHasher" where
  "Adds t [] = Inr t"
| "Adds t (h # hs) = bind (Add t h) (\<lambda>t'. Adds t' hs)"

definition part_tree_hash :: "(bytes \<Rightarrow> bytes) \<Rightarrow> bytes \<Rightarrow> panic + string" where
  "part_tree_hash H p =
     bind (write_close_n H [p] 1) (\<lambda>th. Inr (EncodeToString (TreeHash_TreeHash th)))"

fun part_tree_hashes :: "(bytes \<Rightarrow> bytes) \<Rightarrow> bytes list \<Rightarrow> panic + string list" where
  "part_tree_hashes H [] = Inr []"
| "part_tree_hashes H (p # ps) =
     bind (part_tree_hash H p) (\<lambda>h. bind (part_tree_hashes H ps) (\<lambda>hs. Inr (h # hs)))"

definition multipart_tree_hash :: "(bytes \<Rightarrow> bytes) \<Rightarrow> bytes list \<Rightarrow> panic + string" where
  "multipart_tree_hash H parts =
     bind (part_tree_hashes H parts) (\<lambda>hs.
     bind (Adds \<lparr>part_nodes = []\<rparr> hs) (\<lambda>t.
     bind (CreateHash H t) (\<lambda>(s, t'). Inr s)))"

subsection \<open>The leaves of a body as the specification words them\<close>

text \<open>
  A body \<open>d\<close> is cut into chunks of exactly 1 MiB, except possibly the last:
  \<open>full_chunks d\<close> are the whole chunks, \<open>body_full d\<close> the bytes they cover and
  \<open>body_rest d\<close> the shorter last chunk. A leaf is the digest of one chunk.
\<close>

definition body_full :: "bytes \<Rightarrow> bytes" where
  "body_full d = take (length d div MiB * MiB) d"

definition body_rest :: "bytes \<Rightarrow> bytes" where
  "body_rest d = drop (length d div MiB * MiB) d"

function full_chunks :: "bytes \<Rightarrow> bytes list" where
  "full_chunks d = (if MiB \<le> length d then take MiB d # full_chunks (drop MiB d) else [])"
  by pat_completeness auto
termination
  by (relation "measure length") (auto simp: MiB_def)

declare full_chunks.simps [simp del]

definition leaves_spec :: "(bytes \<Rightarrow> bytes) \<Rightarrow> bytes \<Rightarrow> bytes list" where
  "leaves_spec H d = map H (full_chunks d) @ (if body_rest d = [] then [] else [H (body_rest d)])"

text \<open>The state of a fresh \<^verbatim>\<open>TreeHash\<close> after the bytes \<open>d\<close> have been written to it.\<close>

definition accumulated :: "(bytes \<Rightarrow> bytes) \<Rightarrow> bytes \<Rightarrow> TreeHash" where
  "accumulated H d =
     \<lparr>remaining = body_rest d, nodes = map H (full_chunks d), runningHash = body_full d,
      treeHash_field = zero_digest, linearHash = zero_digest\<rparr>"

text \<open>The root of a non-empty sequence of nodes.\<close>

definition root_of :: "(bytes \<Rightarrow> bytes) \<Rightarrow> bytes list \<Rightarrow> bytes" where
  "root_of H b = the (reduce_spec H b)"

subsection \<open>What a hex string decodes to\<close>

text \<open>
  The bytes of the pairs of hex digits at the start of a string, up to the first pair that
  has a character which is no hex digit, or up to a single last character.
\<close>

fun decoded_prefix :: "string \<Rightarrow> bytes" where
  "decoded_prefix (p # q # src) =
     (case fromHexChar p of
        None \<Rightarrow> []
      | Some a \<Rightarrow>
         (case fromHexChar q of
            None \<Rightarrow> []
          | Some b \<Rightarrow> (push_bit 4 a OR b) # decoded_prefix src))"
| "decoded_prefix [p] = []"
| "decoded_prefix [] = []"

subsection \<open>Percent-encoding and the canonical query string as the specification words them\<close>

text \<open>
  The unreserved characters are the letters, the digits and \<^verbatim>\<open>- _ . ~\<close>; every other
  byte becomes \<^verbatim>\<open>%\<close> and two upper-case hex digits.
\<close>

definition is_unreserved :: "char \<Rightarrow> bool" where
  "is_unreserved c =
     (let n = (of_char c :: nat)
      in (65 \<le> n \<and> n \<le> 90) \<or> (97 \<le> n \<and> n \<le> 122) \<or> (48 \<le> n \<and> n \<le> 57)
         \<or> n = 45 \<or> n = 95 \<or> n = 46 \<or> n = 126)"

definition escape_char :: "char \<Rightarrow> string" where
  "escape_char c =
     (if is_unreserved c then [c]
      else [CHR ''%'', hex_upper ! (of_char c div 16), hex_upper ! (of_char c mod 16)])"

definition encode_spec :: "string \<Rightarrow> string" where
  "encode_spec s = concat (map escape_char s)"

text \<open>
  The pairs of a parsed query, one per value; a pair written as \<^verbatim>\<open>key=value\<close>, both
  encoded; the texts joined by a separator; and the order of two pairs, first by key and
  then by value, as byte strings.
\<close>

definition pairs_of :: "(string \<times> string list) list \<Rightarrow> (string \<times> string) list" where
  "pairs_of query = concat (map (\<lambda>(k, vs). map (Pair k) vs) query)"

definition render :: "string \<times> string \<Rightarrow> string" where
  "render kv = encode_spec (fst kv) @ ''='' @ encode_spec (snd kv)"

fun join :: "string \<Rightarrow> string list \<Rightarrow> string" where
  "join sep [] = []"
| "join sep [x] = x"
| "join sep (x # y # ys) = x @ sep @ join sep (y # ys)"

definition key_then_value :: "string \<times> string \<Rightarrow> string \<times> string \<Rightarrow> bool" where
  "key_then_value a b = (fst a < fst b \<or> (fst a = fst b \<and> snd a \<le> snd b))"

text \<open>
  What \<^verbatim>\<open>url.ParseQuery\<close> returns has one entry per key and at least one value per
  entry. The values of a key, and the pairs of a key with its values sorted:
\<close>

definition well_formed :: "(string \<times> string list) list \<Rightarrow> bool" where
  "well_formed m = (distinct (map fst m) \<and> (\<forall>kv \<in> set m. snd kv \<noteq> []))"

definition values_of :: "(string \<times> string list) list \<Rightarrow> string \<Rightarrow> string list" where
  "values_of query k = (case map_of query k of Some vs \<Rightarrow> vs | None \<Rightarrow> [])"

definition block :: "(string \<times> string list) list \<Rightarrow> string \<Rightarrow> (string \<times> string) list" where
  "block query k = map (Pair k) (sort (values_of query k))"

section \<open>treeHash computes the pairwise reduction\<close>

lemma length_combine_loop: "length (combine_loop H n i arr) = length arr"
  by (induction H n i arr rule: combine_loop.induct) (subst combine_loop.simps, simp)

lemma nth_combine_loop:
  "n \<le> length arr \<Longrightarrow> j < length arr \<Longrightarrow>
   combine_loop H n i arr ! j =
     (if i \<le> j \<and> j < n div 2 then H (arr ! (j * 2) @ arr ! (j * 2 + 1)) else arr ! j)"
proof (induction H n i arr rule: combine_loop.induct)
  case (1 H n i arr)
  show ?case
  proof (cases "i < n div 2")
    case False
    then show ?thesis by (subst combine_loop.simps) auto
  next
    case True
    let ?arr = "arr[i := H (arr ! (i * 2) @ arr ! (i * 2 + 1))]"
    have step: "combine_loop H n i arr = combine_loop H n (Suc i) ?arr"
      using True by (subst combine_loop.simps) simp
    have ih: "combine_loop H n (Suc i) ?arr ! j =
      (if Suc i \<le> j \<and> j < n div 2 then H (?arr ! (j * 2) @ ?arr ! (j * 2 + 1)) else ?arr ! j)"
      using "1.IH" [OF True] "1.prems" by simp
    show ?thesis
    proof (cases "Suc i \<le> j \<and> j < n div 2")
      case True
      then have "j * 2 \<noteq> i" "j * 2 + 1 \<noteq> i" by arith+
      then show ?thesis using True ih step by simp
    next
      case False
      then show ?thesis using ih step True "1.prems" by (cases "j = i") auto
    qed
  qed
qed

lemma length_level_spec: "length (level_spec H xs) = (length xs + 1) div 2"
  by (induction H xs rule: level_spec.induct) auto

lemma nth_level_spec:
  "j < (length xs + 1) div 2 \<Longrightarrow>
   level_spec H xs ! j =
     (if j * 2 + 1 < length xs then H (xs ! (j * 2) @ xs ! (j * 2 + 1)) else xs ! (j * 2))"
proof (induction H xs arbitrary: j rule: level_spec.induct)
  case (1 H a b rest)
  then show ?case by (cases j) auto
qed auto

lemma treeHash_step_fst: "fst (treeHash_step H n arr) = (n + 1) div 2"
  by (simp add: treeHash_step_def Let_def) arith

lemma treeHash_step_length: "length (snd (treeHash_step H n arr)) = length arr"
  by (simp add: treeHash_step_def Let_def length_combine_loop)

lemma treeHash_step_nth:
  assumes "n \<le> length arr" and "j < (n + 1) div 2"
  shows "snd (treeHash_step H n arr) ! j =
    (if j * 2 + 1 < n then H (arr ! (j * 2) @ arr ! (j * 2 + 1)) else arr ! (j * 2))"
proof (cases "n mod 2 = 0")
  case True
  with assms have "j < n div 2" "j < length arr" "j * 2 + 1 < n" by arith+
  with True assms show ?thesis
    by (simp add: treeHash_step_def Let_def nth_combine_loop)
next
  case False
  show ?thesis
  proof (cases "j = n div 2")
    case True
    with False have n: "j * 2 + 1 = n" "n - 1 = j * 2" by arith+
    then have "n div 2 < length arr" "n - 1 < length arr" "\<not> n - 1 < n div 2"
      using assms by arith+
    with False True n assms show ?thesis
      by (simp add: treeHash_step_def Let_def nth_combine_loop length_combine_loop)
  next
    case neq: False
    with False assms have "j < n div 2" "j < length arr" "j * 2 + 1 < n" by arith+
    with False neq assms show ?thesis
      by (simp add: treeHash_step_def Let_def nth_combine_loop)
  qed
qed

lemma treeHash_step_level:
  assumes "n \<le> length arr"
  shows "take (fst (treeHash_step H n arr)) (snd (treeHash_step H n arr)) = level_spec H (take n arr)"
proof (rule nth_equalityI)
  have "(n + 1) div 2 \<le> length arr" using assms by arith
  then show "length (take (fst (treeHash_step H n arr)) (snd (treeHash_step H n arr))) =
    length (level_spec H (take n arr))"
    using assms by (simp add: treeHash_step_fst treeHash_step_length length_level_spec min_def)
next
  fix j
  assume "j < length (take (fst (treeHash_step H n arr)) (snd (treeHash_step H n arr)))"
  then have j: "j < (n + 1) div 2"
    by (simp add: treeHash_step_fst)
  then have "j * 2 < n" by arith
  with j assms show "take (fst (treeHash_step H n arr)) (snd (treeHash_step H n arr)) ! j =
    level_spec H (take n arr) ! j"
    by (simp add: treeHash_step_fst treeHash_step_nth nth_level_spec min_def)
qed

lemma treeHash_loop_reduce:
  "0 < n \<Longrightarrow> n \<le> length arr \<Longrightarrow>
   reduce_spec H (take n arr) = Some (treeHash_loop H n arr ! 0)"
proof (induction H n arr rule: treeHash_loop.induct)
  case (1 H n arr)
  show ?case
  proof (cases "1 < n")
    case False
    with "1.prems" have "n = 1" by simp
    with "1.prems" show ?thesis
      by (subst reduce_spec.simps, subst treeHash_loop.simps) (auto simp: hd_conv_nth)
  next
    case True
    obtain n' arr' where st: "treeHash_step H n arr = (n', arr')"
      by (cases "treeHash_step H n arr")
    have n': "n' = (n + 1) div 2" using treeHash_step_fst [of H n arr] st by simp
    have len: "length arr' = length arr" using treeHash_step_length [of H n arr] st by simp
    have lev: "take n' arr' = level_spec H (take n arr)"
      using treeHash_step_level [OF "1.prems"(2), of H] st by simp
    have "0 < n'" "n' \<le> length arr'" using n' len True "1.prems" by arith+
    then have ih: "reduce_spec H (take n' arr') = Some (treeHash_loop H n' arr' ! 0)"
      using "1.IH" [OF True st [symmetric]] by simp
    have "reduce_spec H (take n arr) = reduce_spec H (level_spec H (take n arr))"
      using True "1.prems" by (subst reduce_spec.simps) auto
    moreover have "treeHash_loop H n arr = treeHash_loop H n' arr'"
      using True st by (subst treeHash_loop.simps) simp
    ultimately show ?thesis using ih lev by simp
  qed
qed

lemma length_treeHash_loop: "length (treeHash_loop H n arr) = length arr"
proof (induction H n arr rule: treeHash_loop.induct)
  case (1 H n arr)
  show ?case
  proof (cases "1 < n")
    case False
    then show ?thesis by (subst treeHash_loop.simps) simp
  next
    case True
    obtain n' arr' where st: "treeHash_step H n arr = (n', arr')"
      by (cases "treeHash_step H n arr")
    have len: "length arr' = length arr" using treeHash_step_length [of H n arr] st by simp
    have "treeHash_loop H n arr = treeHash_loop H n' arr'"
      using True st by (subst treeHash_loop.simps) simp
    then show ?thesis using "1.IH" [OF True st [symmetric]] len by simp
  qed
qed

lemma treeHash_reduce:
  "ns \<noteq> [] \<Longrightarrow>
   \<exists>r arr. treeHash H ns = Inr (r, arr) \<and> reduce_spec H ns = Some r \<and> length arr = length ns"
  using treeHash_loop_reduce [of "length ns" ns H]
  by (simp add: treeHash_def Let_def length_treeHash_loop)

lemma treeHash_single: "treeHash H [h] = Inr (h, [h])"
  by (simp add: treeHash_def treeHash_loop.simps)

lemma reduce_spec_one: "reduce_spec H [h] = Some h"
  by (subst reduce_spec.simps) simp

lemma reduce_spec_level: "reduce_spec H (level_spec H xs) = reduce_spec H xs"
proof (cases "length xs \<le> 1")
  case True
  then have "level_spec H xs = xs" by (cases xs) (auto simp: Suc_le_eq)
  then show ?thesis by simp
next
  case False
  then show ?thesis by (subst (2) reduce_spec.simps) auto
qed

lemma reduce_spec_two: "reduce_spec H [h1, h2] = Some (H (h1 @ h2))"
  using reduce_spec_level [of H "[h1, h2]"] by (simp add: reduce_spec_one)

lemma reduce_spec_three: "reduce_spec H [h1, h2, h3] = Some (H (H (h1 @ h2) @ h3))"
  using reduce_spec_level [of H "[h1, h2, h3]"] by (simp add: reduce_spec_two)

lemma treeHash_root_reduce:
  "ns \<noteq> [] \<Longrightarrow> \<exists>r. treeHash_root H ns = Inr r \<and> reduce_spec H ns = Some r"
  using treeHash_reduce [of ns H] by (auto simp: treeHash_root_def)

text \<open>
  C1. \<^verbatim>\<open>treeHash\<close> of one node is that node, unhashed; of two ns the hash of their
  concatenation; of three ns the third is hashed with the parent of the first two.
  For every non-empty sequence the root is the one that repeated levelling leaves, and
  one pass of the loop over the first \<open>n\<close> entries of the array sets the new length to
  \<open>(n + 1) div 2\<close>, writes the hash of each adjacent pair, and with an odd \<open>n\<close> copies
  the last node unchanged behind the parents.
\<close>

theorem treeHash_reduction:
  "treeHash_root H [h] = Inr h
   \<and> treeHash_root H [h1, h2] = Inr (H (h1 @ h2))
   \<and> treeHash_root H [h1, h2, h3] = Inr (H (H (h1 @ h2) @ h3))
   \<and> (ns \<noteq> [] \<longrightarrow>
        (\<exists>root. treeHash_root H ns = Inr root \<and> reduce_spec H ns = Some root))
   \<and> (n \<le> length arr \<longrightarrow>
        fst (treeHash_step H n arr) = (n + 1) div 2
        \<and> (\<forall>j < n div 2. snd (treeHash_step H n arr) ! j = H (arr ! (j * 2) @ arr ! (j * 2 + 1)))
        \<and> (odd n \<longrightarrow> snd (treeHash_step H n arr) ! (n div 2) = arr ! (n - 1))
        \<and> take (fst (treeHash_step H n arr)) (snd (treeHash_step H n arr))
            = level_spec H (take n arr))"
proof -
  have one: "treeHash_root H [h] = Inr h"
    using treeHash_root_reduce [of "[h]" H] by (auto simp: reduce_spec_one)
  have two: "treeHash_root H [h1, h2] = Inr (H (h1 @ h2))"
    using treeHash_root_reduce [of "[h1, h2]" H] by (auto simp: reduce_spec_two)
  have three: "treeHash_root H [h1, h2, h3] = Inr (H (H (h1 @ h2) @ h3))"
    using treeHash_root_reduce [of "[h1, h2, h3]" H] by (auto simp: reduce_spec_three)
  have pairs: "snd (treeHash_step H n arr) ! j = H (arr ! (j * 2) @ arr ! (j * 2 + 1))"
    if "n \<le> length arr" and "j < n div 2" for j
  proof -
    from that have "j < (n + 1) div 2" "j * 2 + 1 < n" by arith+
    then show ?thesis using treeHash_step_nth [OF that(1), of j H] by simp
  qed
  have carry: "snd (treeHash_step H n arr) ! (n div 2) = arr ! (n - 1)"
    if "n \<le> length arr" and "odd n"
  proof -
    from that have "n div 2 < (n + 1) div 2" "\<not> n div 2 * 2 + 1 < n" "n div 2 * 2 = n - 1"
      by presburger+
    then show ?thesis using treeHash_step_nth [OF that(1), of "n div 2" H] by simp
  qed
  show ?thesis
    using one two three treeHash_root_reduce [of ns H] pairs carry
      treeHash_step_fst [of H n arr] treeHash_step_level [of n arr H]
    by blast
qed

theorem treeHash_reduction_witness:
  "[[1], [2], [3], [4], [5 :: byte]] \<noteq> []
   \<and> (\<exists>root. treeHash_root sample_Sum256 [[1], [2], [3], [4], [5]] = Inr root
         \<and> reduce_spec sample_Sum256 [[1], [2], [3], [4], [5]] = Some root)
   \<and> (5 :: nat) \<le> length [[1], [2], [3], [4], [5 :: byte]]
   \<and> fst (treeHash_step sample_Sum256 5 [[1], [2], [3], [4], [5]]) = 3
   \<and> snd (treeHash_step sample_Sum256 5 [[1], [2], [3], [4], [5]]) ! 2 = [5]"
  using treeHash_reduction [of sample_Sum256 "[1]" "[1]" "[2]" "[3]"
      "[[1], [2], [3], [4], [5]]" 5 "[[1], [2], [3], [4], [5]]"]
  by simp

section \<open>CreateSignature signs with the derived key\<close>

text \<open>\<^verbatim>\<open>NewSignature\<close> runs the chain on \<^verbatim>\<open>k.Secret\<close> and drops the result.\<close>

lemma NewSignature_nil: "NewSignature M k t r service = None"
  by (simp add: NewSignature_def hmac_Write_def Let_def)

text \<open>
  C2. For every secret, date, region, service and string to sign, \<^verbatim>\<open>CreateSignature\<close>
  returns the lower-case hex text of the keyed hash of the string to sign under the
  signing key, and the signing key is the chain of four keyed hashes that starts from the
  key \<^verbatim>\<open>"AWS4" + secret\<close> and goes over the date, the region, the service and
  \<^verbatim>\<open>"aws4_request"\<close>. No other key signs, and no error is returned.
\<close>

theorem CreateSignature_derived_key:
  "CreateSignature M secret date region service sts =
     Inr (bytes_of (EncodeToString
       (M (M (M (M (M (bytes_of (''AWS4'' @ secret)) (bytes_of date)) (bytes_of region))
                (bytes_of service)) (bytes_of ''aws4_request'')) sts)))"
  by (simp add: CreateSignature_def hmac_New_def hmac_Write_def hmac_Sum_def Let_def)

section \<open>Writing and closing a TreeHash\<close>

lemma MiB_pos: "0 < MiB" by (simp add: MiB_def)

lemma full_chunks_small: "length d < MiB \<Longrightarrow> full_chunks d = []"
  by (subst full_chunks.simps) simp

lemma body_small: "length d < MiB \<Longrightarrow> body_full d = [] \<and> body_rest d = d"
  by (simp add: body_full_def body_rest_def)

lemma full_chunks_step: "MiB \<le> length d \<Longrightarrow> full_chunks d = take MiB d # full_chunks (drop MiB d)"
  by (subst full_chunks.simps) simp

lemma div_step: "MiB \<le> n \<Longrightarrow> n div MiB * MiB = MiB + (n - MiB) div MiB * MiB"
  using MiB_pos by (simp add: le_div_geq)

lemma body_full_step: "MiB \<le> length d \<Longrightarrow> body_full d = take MiB d @ body_full (drop MiB d)"
  unfolding body_full_def
  by (simp add: div_step take_add)

lemma body_rest_step: "MiB \<le> length d \<Longrightarrow> body_rest d = body_rest (drop MiB d)"
  unfolding body_rest_def
  by (simp add: div_step add.commute)

lemma Write_loop_eq:
  "Write_loop H th p =
     (th\<lparr>nodes := nodes th @ map H (full_chunks p), runningHash := runningHash th @ body_full p\<rparr>,
      body_rest p)"
proof (induction H th p rule: Write_loop.induct)
  case (1 H th p)
  show ?case
  proof (cases "MiB \<le> length p")
    case True
    then show ?thesis
      using "1.IH" [OF True]
      by (subst Write_loop.simps) (simp add: full_chunks_step body_full_step body_rest_step)
  next
    case False
    then show ?thesis
      by (subst Write_loop.simps) (simp add: full_chunks_small body_small)
  qed
qed

lemma length_body_rest: "length (body_rest d) < MiB"
  using MiB_pos by (simp add: body_rest_def) (metis mod_less_divisor minus_mult_div_eq_mod mult.commute)

lemma body_split: "body_full d @ body_rest d = d"
  by (simp add: body_full_def body_rest_def)

lemma length_body_full: "length (body_full d) = length d div MiB * MiB"
  by (simp add: body_full_def)

text \<open>appending after a whole number of chunks\<close>
lemma full_chunks_append:
  "length a = k * MiB \<Longrightarrow> full_chunks (a @ b) = full_chunks a @ full_chunks b"
proof (induction k arbitrary: a)
  case 0
  then show ?case by (simp add: full_chunks_small MiB_pos)
next
  case (Suc k)
  then have len: "MiB \<le> length a" by simp
  have "length (drop MiB a) = k * MiB" using Suc.prems by simp
  from Suc.IH [OF this] show ?case
    using len by (simp add: full_chunks_step [of a] full_chunks_step [of "a @ b"])
qed

lemma body_full_append:
  "length a = k * MiB \<Longrightarrow> body_full (a @ b) = a @ body_full b"
  using MiB_pos by (simp add: body_full_def add_mult_distrib)

lemma body_rest_append:
  "length a = k * MiB \<Longrightarrow> body_rest (a @ b) = body_rest b"
  using MiB_pos by (simp add: body_rest_def add_mult_distrib)

lemma accumulated_append:
  assumes "length r < MiB" and "length f = k * MiB"
  shows "accumulated H (f @ r) =
    \<lparr>remaining = r, nodes = map H (full_chunks f), runningHash = f,
     treeHash_field = zero_digest, linearHash = zero_digest\<rparr>"
  using assms body_rest_append [OF assms(2), of r] body_full_append [OF assms(2), of r]
    full_chunks_append [OF assms(2), of r] body_small [OF assms(1)] full_chunks_small [OF assms(1)]
  by (simp add: accumulated_def)

lemma Write_accumulated:
  "Write H (accumulated H d) p = Inr (accumulated H (d @ p), length p, None)"
proof -
  define f r k where "f = body_full d" and "r = body_rest d" and "k = length d div MiB"
  have d: "d = f @ r" and r: "length r < MiB" and f: "length f = k * MiB"
    by (simp_all add: f_def r_def k_def body_split length_body_rest length_body_full)
  have acc: "accumulated H d =
    \<lparr>remaining = r, nodes = map H (full_chunks f), runningHash = f,
     treeHash_field = zero_digest, linearHash = zero_digest\<rparr>"
    unfolding d by (rule accumulated_append [OF r f])
  show ?thesis
  proof (cases "length r + length p < MiB")
    case True
    have "accumulated H (d @ p) =
      \<lparr>remaining = r @ p, nodes = map H (full_chunks f), runningHash = f,
       treeHash_field = zero_digest, linearHash = zero_digest\<rparr>"
      using accumulated_append [OF _ f, of "r @ p" H] True unfolding d by simp
    then show ?thesis using True by (simp add: acc Write_def)
  next
    case False
    define fill where "fill = MiB - length r"
    define c p1 where "c = r @ take fill p" and "p1 = drop fill p"
    have fill: "0 < fill" "fill \<le> length p" "int MiB - int (length r) = int fill"
      using r False by (simp_all add: fill_def)
    have c: "length c = 1 * MiB" using fill r by (simp add: c_def fill_def)
    have rp: "r @ p = c @ p1" by (simp add: c_def p1_def)
    have dp: "d @ p = (f @ c @ body_full p1) @ body_rest p1"
      using rp by (simp add: d body_split)
    have len: "length (f @ c @ body_full p1) = (k + 1 + length p1 div MiB) * MiB"
      using f c by (simp add: length_body_full add_mult_distrib)
    have "accumulated H (d @ p) =
      \<lparr>remaining = body_rest p1, nodes = map H (full_chunks (f @ c @ body_full p1)),
       runningHash = f @ c @ body_full p1,
       treeHash_field = zero_digest, linearHash = zero_digest\<rparr>"
      unfolding dp by (rule accumulated_append [OF length_body_rest len])
    moreover have "full_chunks (f @ c @ body_full p1) = full_chunks f @ [c] @ full_chunks p1"
    proof -
      have "full_chunks (f @ c @ body_full p1) = full_chunks f @ full_chunks (c @ body_full p1)"
        by (rule full_chunks_append [OF f])
      also have "full_chunks (c @ body_full p1) = full_chunks c @ full_chunks (body_full p1)"
        by (rule full_chunks_append [OF c])
      also have "full_chunks c = [c]"
        using c by (simp add: full_chunks_step full_chunks_small MiB_pos)
      also have "full_chunks (body_full p1) = full_chunks p1"
        using full_chunks_append [of "body_full p1" "length p1 div MiB" "body_rest p1"]
        by (simp add: body_split length_body_full full_chunks_small length_body_rest)
      finally show ?thesis by simp
    qed
    ultimately show ?thesis
      using False fill
      by (simp add: acc Write_def Let_def Write_loop_eq c_def [symmetric] p1_def [symmetric])
  qed
qed

lemma NewTreeHash_accumulated: "NewTreeHash = accumulated H []"
  by (simp add: NewTreeHash_def Reset_def accumulated_def body_small full_chunks_small MiB_pos)

lemma Writes_accumulated: "Writes H (accumulated H d) ps = Inr (accumulated H (d @ concat ps))"
  by (induction ps arbitrary: d) (simp_all add: Write_accumulated bind_def)

lemma Close_result:
  fixes th :: TreeHash and H :: "bytes \<Rightarrow> bytes"
  defines "ns \<equiv> nodes th @ (if remaining th = [] then [] else [H (remaining th)])"
  shows "\<exists>th'. Close H th = Inr (th', None)
     \<and> remaining th' = remaining th
     \<and> runningHash th' = runningHash th @ remaining th
     \<and> linearHash th' = H (runningHash th @ remaining th)
     \<and> length (nodes th') = length ns
     \<and> (ns = [] \<longrightarrow> nodes th' = [] \<and> treeHash_field th' = treeHash_field th)
     \<and> (ns \<noteq> [] \<longrightarrow> reduce_spec H ns = Some (treeHash_field th'))
     \<and> (length ns = 1 \<longrightarrow> nodes th' = ns)"
proof (cases "ns = []")
  case True
  then show ?thesis by (auto simp: ns_def Close_def bind_def split: if_splits)
next
  case False
  obtain r arr where t: "treeHash H ns = Inr (r, arr)" "reduce_spec H ns = Some r" "length arr = length ns"
    using treeHash_reduce [OF False, of H] by blast
  have one: "arr = ns" if "length ns = 1"
  proof -
    from that obtain h where "ns = [h]" by (cases ns) auto
    with t show ?thesis by (auto simp: treeHash_single)
  qed
  show ?thesis using False t one
    by (auto simp: ns_def Close_def bind_def split: if_splits)
qed

text \<open>
  What a \<^verbatim>\<open>Write\<close> does to a state that buffers less than 1 MiB, closed or not: the
  buffered bytes and the new ones are cut into chunks of 1 MiB, every whole chunk is hashed
  as the next node and goes into the running hash, the rest is the new buffer.
\<close>

lemma Write_eq:
  assumes r: "length (remaining th) < MiB"
  shows "Write H th p =
     Inr (th\<lparr>remaining := body_rest (remaining th @ p),
             nodes := nodes th @ map H (full_chunks (remaining th @ p)),
             runningHash := runningHash th @ body_full (remaining th @ p)\<rparr>, length p, None)"
proof (cases "length (remaining th) + length p < MiB")
  case True
  then have "length (remaining th @ p) < MiB" by simp
  then have "full_chunks (remaining th @ p) = []" "body_full (remaining th @ p) = []"
    "body_rest (remaining th @ p) = remaining th @ p"
    using full_chunks_small body_small by blast+
  then show ?thesis using True by (simp add: Write_def)
next
  case False
  define fill where "fill = MiB - length (remaining th)"
  define c p1 where "c = remaining th @ take fill p" and "p1 = drop fill p"
  have fill: "0 < fill" "fill \<le> length p" "int MiB - int (length (remaining th)) = int fill"
    using r False by (simp_all add: fill_def)
  have c: "length c = 1 * MiB" using fill r by (simp add: c_def fill_def)
  have rp: "remaining th @ p = c @ p1" by (simp add: c_def p1_def)
  have fc: "full_chunks (c @ p1) = c # full_chunks p1"
    using c by (simp add: full_chunks_step [of "c @ p1"])
  have bf: "body_full (c @ p1) = c @ body_full p1" by (rule body_full_append [OF c])
  have br: "body_rest (c @ p1) = body_rest p1" by (rule body_rest_append [OF c])
  show ?thesis
    unfolding rp fc bf br
    using False fill
    by (simp add: Write_def Let_def Write_loop_eq c_def [symmetric] p1_def [symmetric])
qed

lemma calls_ok:
  "length (remaining th) < MiB \<Longrightarrow>
   \<exists>th'. calls H th cs = Inr th' \<and> length (remaining th') < MiB"
proof (induction cs arbitrary: th)
  case Nil
  then show ?case by simp
next
  case (Cons c cs)
  show ?case
  proof (cases c)
    case (CallWrite p)
    let ?th = "th\<lparr>remaining := body_rest (remaining th @ p),
             nodes := nodes th @ map H (full_chunks (remaining th @ p)),
             runningHash := runningHash th @ body_full (remaining th @ p)\<rparr>"
    have "length (remaining ?th) < MiB" by (simp add: length_body_rest)
    from Cons.IH [OF this] show ?thesis
      using CallWrite by (simp add: Write_eq [OF Cons.prems] bind_def)
  next
    case CallClose
    obtain c' where c': "Close H th = Inr (c', None)" "remaining c' = remaining th"
      using Close_result [of H th] by blast
    then have "length (remaining c') < MiB" using Cons.prems by simp
    from Cons.IH [OF this] show ?thesis
      using CallClose c' by (simp add: bind_def)
  next
    case CallReset
    have "length (remaining (Reset th)) < MiB" by (simp add: Reset_def MiB_pos)
    from Cons.IH [OF this] show ?thesis using CallReset by simp
  qed
qed

lemma length_full_chunks: "length (full_chunks d) = length d div MiB"
proof (induction d rule: full_chunks.induct)
  case (1 d)
  show ?case
  proof (cases "MiB \<le> length d")
    case True
    then show ?thesis using "1.IH" [OF True] MiB_pos
      by (simp add: full_chunks_step le_div_geq)
  next
    case False
    then show ?thesis by (simp add: full_chunks_small)
  qed
qed

lemma Closes_fixed:
  "remaining th = [] \<Longrightarrow> linearHash th = H (runningHash th) \<Longrightarrow>
   \<exists>th'. Closes H th k = Inr th' \<and> linearHash th' = linearHash th
     \<and> ((nodes th = [] \<or> nodes th = [treeHash_field th]) \<longrightarrow> treeHash_field th' = treeHash_field th)"
proof (induction k arbitrary: th)
  case 0
  then show ?case by simp
next
  case (Suc k)
  obtain c where c: "Close H th = Inr (c, None)" "remaining c = []"
    "runningHash c = runningHash th" "linearHash c = H (runningHash th)"
    "nodes th = [] \<longrightarrow> nodes c = [] \<and> treeHash_field c = treeHash_field th"
    "nodes th \<noteq> [] \<longrightarrow> reduce_spec H (nodes th) = Some (treeHash_field c)"
    "length (nodes th) = 1 \<longrightarrow> nodes c = nodes th"
    using Close_result [of H th] Suc.prems by auto
  from c Suc.prems have "remaining c = []" "linearHash c = H (runningHash c)" by simp_all
  from Suc.IH [OF this] obtain th' where th': "Closes H c k = Inr th'"
    "linearHash th' = linearHash c"
    "(nodes c = [] \<or> nodes c = [treeHash_field c]) \<longrightarrow> treeHash_field th' = treeHash_field c"
    by blast
  have "treeHash_field th' = treeHash_field th" if "nodes th = [] \<or> nodes th = [treeHash_field th]"
    using that c th' by (auto simp: reduce_spec_one)
  then show ?case using c th' Suc.prems by (simp add: bind_def)
qed

lemma Closes_2: "Closes H th 2 = bind (Close H th) (\<lambda>(th', err). bind (Close H th') (\<lambda>(th'', err). Inr th''))"
  by (simp add: numeral_2_eq_2)

text \<open>
  C3. However the bytes are cut into \<^verbatim>\<open>Write\<close> calls, writing the pieces in order
  to a fresh \<^verbatim>\<open>TreeHash\<close> and closing it gives the same tree hash and the same linear
  hash as one \<^verbatim>\<open>Write\<close> of all the bytes followed by \<^verbatim>\<open>Close\<close>; neither run
  panics or returns an error, and the linear hash is the digest of all the bytes.
\<close>

theorem Write_partition_invariant:
  "\<exists>th th'. bind (Writes H NewTreeHash ps) (Close H) = Inr (th, None)
     \<and> bind (Writes H NewTreeHash [concat ps]) (Close H) = Inr (th', None)
     \<and> TreeHash_TreeHash th = TreeHash_TreeHash th'
     \<and> TreeHash_Hash th = TreeHash_Hash th'
     \<and> TreeHash_Hash th = H (concat ps)"
proof -
  have w: "Writes H NewTreeHash qs = Inr (accumulated H (concat qs))" for qs
    using Writes_accumulated [of H "[]" qs] by (simp add: NewTreeHash_accumulated [of H])
  obtain th where c: "Close H (accumulated H (concat ps)) = Inr (th, None)"
    and l: "linearHash th = H (runningHash (accumulated H (concat ps)) @ remaining (accumulated H (concat ps)))"
    using Close_result [of H "accumulated H (concat ps)"] by blast
  have "linearHash th = H (concat ps)"
    using l by (simp add: accumulated_def body_split)
  then show ?thesis
    using c w [of ps] w [of "[concat ps]"] by (simp add: bind_def TreeHash_Hash_def)
qed

text \<open>
  C5, as the code has it. A second \<^verbatim>\<open>Close\<close> hashes the buffered bytes once more,
  as one more leaf and into the running hash, and \<^verbatim>\<open>treeHash\<close> has overwritten the
  leaves in place. What holds: when the bytes written are a whole number of MiB, so that
  nothing is buffered, any further \<^verbatim>\<open>Close\<close> leaves the linear hash as the first
  \<^verbatim>\<open>Close\<close> set it, and when they are 0 or exactly 1 MiB, so that there is at most
  one leaf, also the tree hash.
\<close>

theorem Close_again_when_nothing_buffered:
  assumes "MiB dvd length (concat ps)"
  shows "\<exists>th1 thk. write_close_n H ps 1 = Inr th1 \<and> write_close_n H ps (Suc (Suc k)) = Inr thk
     \<and> TreeHash_Hash thk = TreeHash_Hash th1
     \<and> (length (concat ps) \<le> MiB \<longrightarrow> TreeHash_TreeHash thk = TreeHash_TreeHash th1)"
proof -
  define d where "d = concat ps"
  have w: "Writes H NewTreeHash ps = Inr (accumulated H d)"
    using Writes_accumulated [of H "[]" ps] by (simp add: NewTreeHash_accumulated [of H] d_def)
  have rest: "body_rest d = []"
    using assms by (auto simp: body_rest_def d_def)
  obtain c where c: "Close H (accumulated H d) = Inr (c, None)" "remaining c = []"
    "runningHash c = body_full d" "linearHash c = H (body_full d)"
    "full_chunks d = [] \<longrightarrow> nodes c = [] \<and> treeHash_field c = zero_digest"
    "full_chunks d \<noteq> [] \<longrightarrow> reduce_spec H (map H (full_chunks d)) = Some (treeHash_field c)"
    "length (full_chunks d) = 1 \<longrightarrow> nodes c = map H (full_chunks d)"
    using Close_result [of H "accumulated H d"] rest by (auto simp: accumulated_def)
  have small: "nodes c = [] \<or> nodes c = [treeHash_field c]" if "length d \<le> MiB"
  proof (cases "length d = MiB")
    case True
    then have "length (full_chunks d) = 1" using MiB_pos by (simp add: length_full_chunks)
    then obtain x where "full_chunks d = [x]" by (cases "full_chunks d") auto
    with c show ?thesis by (auto simp: reduce_spec_one)
  next
    case False
    with that have "full_chunks d = []" by (simp add: full_chunks_small)
    with c show ?thesis by simp
  qed
  from c have "remaining c = []" "linearHash c = H (runningHash c)" by simp_all
  from Closes_fixed [where H = H and k = "Suc k", OF this] obtain th' where th': "Closes H c (Suc k) = Inr th'"
    "linearHash th' = linearHash c"
    "(nodes c = [] \<or> nodes c = [treeHash_field c]) \<longrightarrow> treeHash_field th' = treeHash_field c"
    by blast
  have "write_close_n H ps 1 = Inr c"
    using w c by (simp add: write_close_n_def bind_def)
  moreover have "write_close_n H ps (Suc (Suc k)) = Inr th'"
    using w c th' by (simp add: write_close_n_def bind_def)
  ultimately show ?thesis
    using th' small unfolding d_def by (auto simp: TreeHash_Hash_def TreeHash_TreeHash_def)
qed

theorem Close_again_when_nothing_buffered_witness:
  "MiB dvd length (concat [replicate MiB (0 :: byte)])
   \<and> (\<exists>th1 thk. write_close_n sample_Sum256 [replicate MiB 0] 1 = Inr th1
         \<and> write_close_n sample_Sum256 [replicate MiB 0] 3 = Inr thk
         \<and> TreeHash_Hash thk = TreeHash_Hash th1
         \<and> TreeHash_TreeHash thk = TreeHash_TreeHash th1)"
  using Close_again_when_nothing_buffered [of "[replicate MiB (0 :: byte)]" sample_Sum256 1]
  by (simp add: numeral_3_eq_3)

text \<open>
  Whatever the digest function is: after one write of less than 1 MiB, the first
  \<^verbatim>\<open>Close\<close> leaves the digest of the bytes in both results, the second one leaves the
  digest of the bytes taken twice as the linear hash and the parent of two equal leaves as
  the tree hash.
\<close>

lemma Close_twice_any_digest:
  assumes "d \<noteq> []" and "length d < MiB"
  shows "write_close_n H [d] 1 =
      Inr \<lparr>remaining = d, nodes = [H d], runningHash = d,
           treeHash_field = H d, linearHash = H d\<rparr>"
    and "write_close_n H [d] 2 =
      Inr \<lparr>remaining = d, nodes = [H (H d @ H d), H d], runningHash = d @ d,
           treeHash_field = H (H d @ H d), linearHash = H (d @ d)\<rparr>"
  using assms
  by (simp_all add: write_close_n_def NewTreeHash_def Reset_def Write_def Close_def bind_def
      treeHash_def treeHash_loop.simps treeHash_step_def combine_loop.simps Let_def Closes_2)

text \<open>
  C5 as stated fails: one byte is written and \<^verbatim>\<open>Close\<close> is called twice. The first
  call hashes \<^verbatim>\<open>"a"\<close>, the second has hashed \<^verbatim>\<open>"aa"\<close> and holds two leaves.
\<close>

theorem Close_again_counterexample:
  "map_sum id TreeHash_Hash (write_close_n sample_Sum256 [[0x61]] 1) = Inr (1 # 0x61 # replicate 30 0)
   \<and> map_sum id TreeHash_Hash (write_close_n sample_Sum256 [[0x61]] 2) = Inr (1 # 0x61 # 0x61 # replicate 29 0)
   \<and> map_sum id TreeHash_TreeHash (write_close_n sample_Sum256 [[0x61]] 1) = Inr (1 # 0x61 # replicate 30 0)
   \<and> map_sum id TreeHash_TreeHash (write_close_n sample_Sum256 [[0x61]] 2)
        = Inr (1 # 1 # 0x61 # replicate 29 0)"
  by (simp add: write_close_n_def NewTreeHash_def Reset_def Write_def MiB_def Close_def bind_def
      treeHash_def treeHash_loop.simps treeHash_step_def combine_loop.simps Let_def
      TreeHash_Hash_def TreeHash_TreeHash_def sample_Sum256_def Closes_2)

text \<open>
  C6, as the code has it. \<^verbatim>\<open>Write\<close> does not look at whether \<^verbatim>\<open>Close\<close> has been
  called. After any history of calls on a new \<^verbatim>\<open>TreeHash\<close> that holds a \<^verbatim>\<open>Close\<close>
  (writes, closes and resets before it and after it), \<^verbatim>\<open>Write\<close> returns the length of
  its argument and a nil error, and it takes the bytes as it does on every instance: the
  buffered bytes followed by the new ones are cut into chunks of 1 MiB, the digest of each
  whole chunk is appended to the nodes, the whole chunks are appended to the running hash,
  and the rest is buffered. The tree hash and the linear hash that \<^verbatim>\<open>Close\<close> computed
  stay as they are. The second half states the same of every history, with or without a
  \<^verbatim>\<open>Close\<close>.
\<close>

theorem Write_after_Close_succeeds:
  "(\<exists>th th'. calls H NewTreeHash (before @ CallClose # after) = Inr th
      \<and> Write H th p = Inr (th', length p, None)
      \<and> th' = th\<lparr>remaining := body_rest (remaining th @ p),
                  nodes := nodes th @ map H (full_chunks (remaining th @ p)),
                  runningHash := runningHash th @ body_full (remaining th @ p)\<rparr>
      \<and> TreeHash_TreeHash th' = TreeHash_TreeHash th
      \<and> TreeHash_Hash th' = TreeHash_Hash th)
   \<and> (\<exists>th. calls H NewTreeHash cs = Inr th
      \<and> Write H th p =
          Inr (th\<lparr>remaining := body_rest (remaining th @ p),
                  nodes := nodes th @ map H (full_chunks (remaining th @ p)),
                  runningHash := runningHash th @ body_full (remaining th @ p)\<rparr>,
               length p, None))"
proof -
  have new: "length (remaining NewTreeHash) < MiB"
    by (simp add: NewTreeHash_def Reset_def MiB_pos)
  obtain th where th: "calls H NewTreeHash (before @ CallClose # after) = Inr th"
    "length (remaining th) < MiB"
    using calls_ok [OF new] by blast
  obtain th2 where th2: "calls H NewTreeHash cs = Inr th2" "length (remaining th2) < MiB"
    using calls_ok [OF new] by blast
  show ?thesis
    using th(1) Write_eq [OF th(2), of H p] th2(1) Write_eq [OF th2(2), of H p]
    by (simp add: TreeHash_TreeHash_def TreeHash_Hash_def)
qed

text \<open>
  C6 as stated fails: a fresh \<^verbatim>\<open>TreeHash\<close> is closed and one byte is written to it.
  The call returns the count 1 and no error, and the byte is buffered.
\<close>

theorem Write_after_Close_counterexample:
  "write_close_n sample_Sum256 [] 1 =
     Inr \<lparr>remaining = [], nodes = [], runningHash = [],
          treeHash_field = zero_digest, linearHash = sample_Sum256 []\<rparr>
   \<and> Write sample_Sum256
        \<lparr>remaining = [], nodes = [], runningHash = [],
         treeHash_field = zero_digest, linearHash = sample_Sum256 []\<rparr> [0x61] =
     Inr (\<lparr>remaining = [0x61], nodes = [], runningHash = [],
           treeHash_field = zero_digest, linearHash = sample_Sum256 []\<rparr>, 1, None)"
  by (simp add: write_close_n_def NewTreeHash_def Reset_def Write_def MiB_def Close_def bind_def)

text \<open>
  C8, as the code has it. \<^verbatim>\<open>TreeHash()\<close> and \<^verbatim>\<open>Hash()\<close> return the fields and have
  no error result. On a \<^verbatim>\<open>TreeHash\<close> that is new or was reset, and has been written
  to but not closed, both return the digest of 32 zero bytes.
\<close>

theorem read_before_Close_is_zero:
  "\<exists>th. Writes H (Reset th0) ps = Inr th
     \<and> TreeHash_TreeHash th = zero_digest \<and> TreeHash_Hash th = zero_digest
     \<and> Reset th0 = NewTreeHash"
proof -
  have r: "Reset th0 = NewTreeHash" by (simp add: NewTreeHash_def Reset_def)
  have w: "Writes H NewTreeHash ps = Inr (accumulated H (concat ps))"
    using Writes_accumulated [of H "[]" ps] by (simp add: NewTreeHash_accumulated [of H])
  show ?thesis using r w by (simp add: accumulated_def TreeHash_Hash_def TreeHash_TreeHash_def)
qed

text \<open>
  C8 as stated fails: read before any \<^verbatim>\<open>Close\<close>, both digests are returned, 32 zero
  bytes each.
\<close>

theorem read_before_Close_counterexample:
  "TreeHash_TreeHash NewTreeHash = replicate 32 0 \<and> TreeHash_Hash NewTreeHash = replicate 32 0"
  by (simp add: TreeHash_TreeHash_def TreeHash_Hash_def NewTreeHash_def Reset_def zero_digest_def)

section \<open>MultiTreeHasher\<close>

lemma fromHexChar_hextable_all: "\<forall>n \<in> set [0..<16]. fromHexChar (hextable ! n) = Some (of_nat n)"
  by (simp add: hextable_def fromHexChar_def upt_conv_Cons)

lemma fromHexChar_hextable: "n < 16 \<Longrightarrow> fromHexChar (hextable ! n) = Some (of_nat n)"
  using fromHexChar_hextable_all by simp

lemma nibbles: "push_bit 4 (drop_bit 4 v) OR (v AND 0x0f) = (v :: byte)"
proof -
  have "(0x0f :: byte) = mask 4" by (simp add: mask_eq_exp_minus_1)
  then show ?thesis
    by (simp add: bit_eq_iff bit_simps) (auto simp: not_le)
qed

lemma unat_hi: "unat (drop_bit 4 (v :: byte)) < 16"
proof -
  have "unat v < 256" using unsigned_less [of v, where ?'a = nat] by simp
  then show ?thesis by (simp add: drop_bit_eq_div unat_div)
qed

lemma unat_lo: "unat ((v :: byte) AND 0x0f) < 16"
proof -
  have "unat (v AND 15) \<le> unat (15 :: byte)"
    by (rule word_and_le1 [THEN word_le_nat_alt [THEN iffD1]])
  then show ?thesis by simp
qed

lemma decoded_prefix_Encode: "decoded_prefix (EncodeToString d) = d"
proof (induction d)
  case Nil
  then show ?case by (simp add: EncodeToString_def)
next
  case (Cons v d)
  have "EncodeToString (v # d) =
    hextable ! unat (drop_bit 4 v) # hextable ! unat (v AND 0x0f) # EncodeToString d"
    by (simp add: EncodeToString_def)
  then show ?case
    using Cons fromHexChar_hextable [OF unat_hi [of v]] fromHexChar_hextable [OF unat_lo [of v]]
      nibbles [of v]
    by simp
qed

lemma Decode_prefix:
  "i \<le> length dst \<Longrightarrow>
   (length (decoded_prefix src) \<le> length dst - i \<longrightarrow>
      (\<exists>n e. Decode dst i src =
         Inr (take i dst @ decoded_prefix src @ drop (i + length (decoded_prefix src)) dst, n, e)))
   \<and> (length dst - i < length (decoded_prefix src) \<longrightarrow> Decode dst i src = Inl IndexOutOfRange)"
proof (induction dst i src rule: Decode.induct)
  case (1 dst i p q src)
  show ?case
  proof (cases "fromHexChar p")
    case None
    then show ?thesis by simp
  next
    case a: (Some a)
    show ?thesis
    proof (cases "fromHexChar q")
      case None
      with a show ?thesis by simp
    next
      case b: (Some b)
      show ?thesis
      proof (cases "i < length dst")
        case False
        with a b "1.prems" show ?thesis by (simp add: store_def bind_def)
      next
        case True
        let ?dst = "dst[i := push_bit 4 a OR b]"
        have st: "store dst (int i) (push_bit 4 a OR b) = Inr ?dst"
          using True by (simp add: store_def)
        have ih: "(length (decoded_prefix src) \<le> length ?dst - Suc i \<longrightarrow>
            (\<exists>n e. Decode ?dst (Suc i) src =
              Inr (take (Suc i) ?dst @ decoded_prefix src @ drop (Suc i + length (decoded_prefix src)) ?dst, n, e)))
          \<and> (length ?dst - Suc i < length (decoded_prefix src) \<longrightarrow> Decode ?dst (Suc i) src = Inl IndexOutOfRange)"
          using "1.IH" [OF a b, of ?dst] True by simp
        have tk: "take (Suc i) ?dst = take i dst @ [push_bit 4 a OR b]"
          using True by (simp add: take_Suc_conv_app_nth)
        show ?thesis
          using a b st ih True tk by (auto simp: bind_def)
      qed
    qed
  qed
next
  case (2 dst i p)
  then show ?case by (cases "fromHexChar p") auto
next
  case (3 dst i)
  then show ?case by simp
qed

lemma Add_eq:
  "Add t hash =
     (if length (decoded_prefix hash) \<le> 32
      then Inr (t\<lparr>part_nodes := part_nodes t @
                  [decoded_prefix hash @ replicate (32 - length (decoded_prefix hash)) 0]\<rparr>)
      else Inl IndexOutOfRange)"
  using Decode_prefix [of 0 "replicate 32 0" hash]
  by (auto simp: Add_def bind_def)

text \<open>
  C7, as the code has it. \<^verbatim>\<open>Add\<close> has no error result and drops the error of
  \<^verbatim>\<open>hex.Decode\<close>. Whatever the string is, as long as it starts with at most 32 pairs
  of hex digits, \<^verbatim>\<open>Add\<close> appends one 32-byte node behind the nodes added before: the
  bytes of the pairs of hex digits before the first character that is no hex digit (or
  before a single last character), zero-filled. A string that starts with more than 32
  pairs of hex digits ends in a panic, the write being past the end of the array. The
  hex text of a digest decodes to the digest, so a well-formed 64-digit string appends its
  32-byte digest.
\<close>

theorem Add_appends_decoded_prefix:
  "Add t hash =
     (if length (decoded_prefix hash) \<le> 32
      then Inr (t\<lparr>part_nodes := part_nodes t @
                  [decoded_prefix hash @ replicate (32 - length (decoded_prefix hash)) 0]\<rparr>)
      else Inl IndexOutOfRange)
   \<and> decoded_prefix (EncodeToString d) = d"
  using Add_eq [of t hash] decoded_prefix_Encode [of d] by simp

text \<open>
  C7 as stated fails: \<^verbatim>\<open>"zz"\<close> has the wrong length and no hex digit, and \<^verbatim>\<open>Add\<close>
  appends a node of 32 zero bytes; so it does for the 63 digits of an odd-length string,
  keeping the 31 bytes decoded.
\<close>

theorem Add_malformed_counterexample:
  "Add \<lparr>part_nodes = []\<rparr> ''zz'' = Inr \<lparr>part_nodes = [replicate 32 0]\<rparr>
   \<and> Add \<lparr>part_nodes = []\<rparr> ''0aFf1'' = Inr \<lparr>part_nodes = [[0x0a, 0xff] @ replicate 30 0]\<rparr>"
  by (simp add: Add_eq fromHexChar_def)

section \<open>Tree hashes of parts and of the whole\<close>

lemma level_spec_append_even:
  "even (length xs) \<Longrightarrow> level_spec H (xs @ ys) = level_spec H xs @ level_spec H ys"
  by (induction H xs rule: level_spec.induct) auto

lemma level_spec_Nil: "level_spec H xs = [] \<longleftrightarrow> xs = []"
  by (induction H xs rule: level_spec.induct) auto

lemma level_spec_concat:
  "\<forall>b \<in> set (butlast blocks). even (length b) \<Longrightarrow>
   level_spec H (concat blocks) = concat (map (level_spec H) blocks)"
proof (induction blocks)
  case Nil
  then show ?case by simp
next
  case (Cons b bs)
  show ?case
  proof (cases "bs = []")
    case True
    then show ?thesis by simp
  next
    case False
    with Cons.prems have "even (length b)" "\<forall>b \<in> set (butlast bs). even (length b)" by simp_all
    with Cons.IH show ?thesis by (simp add: level_spec_append_even)
  qed
qed

lemma root_of_level: "root_of H (level_spec H b) = root_of H b"
  by (simp add: root_of_def reduce_spec_level)

lemma singletons: "\<forall>b \<in> set blocks. length b = 1 \<Longrightarrow> map (root_of H) blocks = concat blocks"
proof (induction blocks)
  case Nil
  then show ?case by simp
next
  case (Cons b bs)
  then obtain x where "b = [x]" by (cases b) auto
  with Cons show ?case by (simp add: root_of_def reduce_spec_one)
qed

lemma reduce_blocks:
  "blocks \<noteq> [] \<Longrightarrow> \<forall>b \<in> set (butlast blocks). length b = 2 ^ j \<Longrightarrow>
   last blocks \<noteq> [] \<Longrightarrow> length (last blocks) \<le> 2 ^ j \<Longrightarrow>
   reduce_spec H (map (root_of H) blocks) = reduce_spec H (concat blocks)"
proof (induction j arbitrary: blocks)
  case 0
  have "length (last blocks) = 1" using "0.prems" by (cases "last blocks") auto
  moreover have "set blocks = insert (last blocks) (set (butlast blocks))"
    using "0.prems"(1) by (metis append_butlast_last_id list.simps(15) rotate1.simps(2) set_rotate1)
  ultimately have "\<forall>b \<in> set blocks. length b = 1" using "0.prems" by auto
  then show ?case by (simp add: singletons)
next
  case (Suc j)
  let ?bl = "map (level_spec H) blocks"
  have 1: "?bl \<noteq> []" using Suc.prems by simp
  have 2: "\<forall>b \<in> set (butlast ?bl). length b = 2 ^ j"
    using Suc.prems by (auto simp: map_butlast [symmetric] length_level_spec)
  have 3: "last ?bl \<noteq> []"
    using Suc.prems by (simp add: last_map level_spec_Nil)
  have "(length (last blocks) + 1) div 2 \<le> 2 ^ j" using Suc.prems(4) by simp
  then have 4: "length (last ?bl) \<le> 2 ^ j"
    using Suc.prems by (simp add: last_map length_level_spec)
  have ev: "\<forall>b \<in> set (butlast blocks). even (length b)" using Suc.prems by simp
  have "reduce_spec H (map (root_of H) ?bl) = reduce_spec H (concat ?bl)"
    by (rule Suc.IH [OF 1 2 3 4])
  also have "map (root_of H) ?bl = map (root_of H) blocks"
    by (simp add: root_of_level)
  also have "concat ?bl = level_spec H (concat blocks)"
    by (simp add: level_spec_concat [OF ev])
  finally show ?case by (simp only: reduce_spec_level)
qed

lemma leaves_spec_append:
  "length a = k * MiB \<Longrightarrow> leaves_spec H (a @ b) = leaves_spec H a @ leaves_spec H b"
proof -
  assume a: "length a = k * MiB"
  have "body_rest a = []" using a by (simp add: body_rest_def)
  then show ?thesis
    using full_chunks_append [OF a, of b] body_rest_append [OF a, of b]
    by (simp add: leaves_spec_def)
qed

lemma leaves_spec_concat:
  "\<forall>p \<in> set (butlast parts). \<exists>k. length p = k * MiB \<Longrightarrow>
   leaves_spec H (concat parts) = concat (map (leaves_spec H) parts)"
proof (induction parts)
  case Nil
  then show ?case by (simp add: leaves_spec_def full_chunks_small body_small MiB_pos)
next
  case (Cons p ps)
  show ?case
  proof (cases "ps = []")
    case True
    then show ?thesis by simp
  next
    case False
    with Cons.prems obtain k where k: "length p = k * MiB" by auto
    from False Cons.prems have "\<forall>p \<in> set (butlast ps). \<exists>k. length p = k * MiB" by simp
    then show ?thesis using Cons.IH leaves_spec_append [OF k, of H "concat ps"] by simp
  qed
qed

lemma length_leaves_spec:
  "length (leaves_spec H p) = length p div MiB + (if length p mod MiB = 0 then 0 else 1)"
proof -
  have "length (body_rest p) = length p mod MiB"
    by (simp add: body_rest_def minus_div_mult_eq_mod)
  then have "body_rest p = [] \<longleftrightarrow> length p mod MiB = 0"
    by (metis length_0_conv)
  then show ?thesis by (simp add: leaves_spec_def length_full_chunks)
qed

lemma leaves_spec_in_range: "x \<in> set (leaves_spec H p) \<Longrightarrow> x \<in> range H"
  by (auto simp: leaves_spec_def split: if_splits)

lemma level_spec_in_range:
  "\<forall>x \<in> set xs. x \<in> range H \<Longrightarrow> \<forall>x \<in> set (level_spec H xs). x \<in> range H"
  by (induction H xs rule: level_spec.induct) auto

lemma reduce_spec_in_range:
  "xs \<noteq> [] \<Longrightarrow> \<forall>x \<in> set xs. x \<in> range H \<Longrightarrow> \<exists>r. reduce_spec H xs = Some r \<and> r \<in> range H"
proof (induction H xs rule: reduce_spec.induct)
  case (1 H xs)
  show ?case
  proof (cases "length xs = 1")
    case True
    then obtain x where "xs = [x]" by (cases xs) auto
    with "1.prems" show ?thesis by (simp add: reduce_spec_one)
  next
    case False
    have "level_spec H xs \<noteq> []" using "1.prems" by (simp add: level_spec_Nil)
    moreover have "\<forall>x \<in> set (level_spec H xs). x \<in> range H"
      using "1.prems" by (intro level_spec_in_range) simp
    ultimately show ?thesis
      using "1.IH" [OF "1.prems"(1) False] by (simp add: reduce_spec_level)
  qed
qed

lemma write_close_1:
  "\<exists>th. write_close_n H [p] 1 = Inr th
     \<and> treeHash_field th = (if p = [] then zero_digest else root_of H (leaves_spec H p))
     \<and> (p \<noteq> [] \<longrightarrow> leaves_spec H p \<noteq> [])"
proof -
  have w: "Writes H NewTreeHash [p] = Inr (accumulated H p)"
    using Writes_accumulated [of H "[]" "[p]"] by (simp add: NewTreeHash_accumulated [of H])
  have ns: "nodes (accumulated H p) @
      (if remaining (accumulated H p) = [] then [] else [H (remaining (accumulated H p))])
      = leaves_spec H p"
    by (simp add: accumulated_def leaves_spec_def)
  have e: "leaves_spec H p = [] \<longleftrightarrow> p = []"
  proof
    assume "leaves_spec H p = []"
    then have "length (leaves_spec H p) = 0" by simp
    then have "length p div MiB = 0" "length p mod MiB = 0"
      by (simp_all add: length_leaves_spec split: if_splits)
    then show "p = []" using div_mult_mod_eq [of "length p" MiB] by simp
  next
    assume "p = []"
    then show "leaves_spec H p = []"
      by (simp add: leaves_spec_def full_chunks_small body_small MiB_pos)
  qed
  obtain c where c: "Close H (accumulated H p) = Inr (c, None)"
    "leaves_spec H p = [] \<longrightarrow> treeHash_field c = zero_digest"
    "leaves_spec H p \<noteq> [] \<longrightarrow> reduce_spec H (leaves_spec H p) = Some (treeHash_field c)"
    using Close_result [of H "accumulated H p"] unfolding ns by (auto simp: accumulated_def)
  show ?thesis
    using w c e by (auto simp: write_close_n_def bind_def root_of_def)
qed

lemma part_tree_hash_eq:
  "p \<noteq> [] \<Longrightarrow> part_tree_hash H p = Inr (EncodeToString (root_of H (leaves_spec H p)))"
  using write_close_1 [of H p] by (auto simp: part_tree_hash_def bind_def TreeHash_TreeHash_def)

lemma part_tree_hashes_eq:
  "\<forall>p \<in> set parts. p \<noteq> [] \<Longrightarrow>
   part_tree_hashes H parts = Inr (map (\<lambda>p. EncodeToString (root_of H (leaves_spec H p))) parts)"
  by (induction parts) (simp_all add: part_tree_hash_eq bind_def)

lemma Adds_digests:
  "\<forall>d \<in> set ds. length d = 32 \<Longrightarrow>
   Adds t (map EncodeToString ds) = Inr (t\<lparr>part_nodes := part_nodes t @ ds\<rparr>)"
  by (induction ds arbitrary: t) (simp_all add: Add_eq decoded_prefix_Encode bind_def)

lemma CreateHash_eq:
  "ns \<noteq> [] \<Longrightarrow> \<exists>t'. CreateHash H \<lparr>part_nodes = ns\<rparr> = Inr (EncodeToString (root_of H ns), t')"
  using treeHash_reduce [of ns H] by (auto simp: CreateHash_def bind_def root_of_def)

lemma full_chunks_replicate: "full_chunks (replicate (k * MiB) x) = replicate k (replicate MiB x)"
proof (induction k)
  case 0
  then show ?case by (simp add: full_chunks_small MiB_pos)
next
  case (Suc k)
  have "replicate (Suc k * MiB) x = replicate MiB x @ replicate (k * MiB) x"
    by (simp add: replicate_add [symmetric])
  then show ?case
    using Suc full_chunks_append [of "replicate MiB x" 1 "replicate (k * MiB) x"]
    by (simp add: full_chunks_step [of "replicate MiB x"] full_chunks_small MiB_pos)
qed

lemma leaves_spec_replicate:
  "leaves_spec H (replicate (k * MiB) x) = replicate k (H (replicate MiB x))"
  by (simp add: leaves_spec_def full_chunks_replicate body_rest_def)

lemma sample_chunk: "sample_Sum256 (replicate MiB 0) = 1 # replicate 31 0"
  by (simp add: sample_Sum256_def MiB_def)

text \<open>
  C4, as the code has it. The roots of the parts reduce to the root of the whole body
  when every part but the last has the same size of \<open>2 ^ j\<close> MiB, for one \<open>j\<close>, and
  the last part is not empty and not larger: then \<^verbatim>\<open>CreateHash\<close> on the hex tree
  hashes of the parts, added in part order, returns the hex tree hash that one
  \<^verbatim>\<open>TreeHash\<close> computes for the concatenation of the parts. The digest function is
  any function that returns 32 bytes.
\<close>

theorem multipart_tree_hash_equal_parts:
  assumes H: "\<forall>bs. length (H bs) = 32"
    and ne: "parts \<noteq> []"
    and eq: "\<forall>p \<in> set (butlast parts). length p = 2 ^ j * MiB"
    and l1: "last parts \<noteq> []"
    and l2: "length (last parts) \<le> 2 ^ j * MiB"
  shows "multipart_tree_hash H parts = part_tree_hash H (concat parts)
    \<and> part_tree_hash H (concat parts)
        = Inr (EncodeToString (the (reduce_spec H (leaves_spec H (concat parts)))))"
proof -
  have set_parts: "set parts = insert (last parts) (set (butlast parts))"
    using ne by (metis append_butlast_last_id list.simps(15) rotate1.simps(2) set_rotate1)
  have nonempty: "\<forall>p \<in> set parts. p \<noteq> []"
  proof
    fix p assume "p \<in> set parts"
    then consider "p = last parts" | "p \<in> set (butlast parts)" using set_parts by auto
    then show "p \<noteq> []"
    proof cases
      case 1
      then show ?thesis using l1 by simp
    next
      case 2
      then have "length p = 2 ^ j * MiB" using eq by simp
      then show ?thesis using MiB_pos by auto
    qed
  qed
  define blocks where "blocks = map (leaves_spec H) parts"
  define roots where "roots = map (root_of H) blocks"
  have hs: "part_tree_hashes H parts = Inr (map EncodeToString roots)"
    using part_tree_hashes_eq [OF nonempty, of H] by (simp add: roots_def blocks_def comp_def)
  have len32: "\<forall>d \<in> set roots. length d = 32"
  proof
    fix d assume "d \<in> set roots"
    then obtain p where p: "p \<in> set parts" "d = root_of H (leaves_spec H p)"
      by (auto simp: roots_def blocks_def)
    then have "leaves_spec H p \<noteq> []"
      using write_close_1 [of H p] nonempty by auto
    then obtain r where "reduce_spec H (leaves_spec H p) = Some r" "r \<in> range H"
      using reduce_spec_in_range [of "leaves_spec H p" H] leaves_spec_in_range [of _ H p] by blast
    then show "length d = 32" using p H by (auto simp: root_of_def)
  qed
  have adds: "Adds \<lparr>part_nodes = []\<rparr> (map EncodeToString roots) = Inr \<lparr>part_nodes = roots\<rparr>"
    using Adds_digests [OF len32, of "\<lparr>part_nodes = []\<rparr>"] by simp
  have "roots \<noteq> []" using ne by (simp add: roots_def blocks_def)
  then obtain t' where ch: "CreateHash H \<lparr>part_nodes = roots\<rparr> = Inr (EncodeToString (root_of H roots), t')"
    using CreateHash_eq [of roots H] by blast
  have multi: "multipart_tree_hash H parts = Inr (EncodeToString (root_of H roots))"
    using hs adds ch by (simp add: multipart_tree_hash_def bind_def)
  have b1: "blocks \<noteq> []" using ne by (simp add: blocks_def)
  have b2: "\<forall>b \<in> set (butlast blocks). length b = 2 ^ j"
    using eq MiB_pos by (auto simp: blocks_def map_butlast [symmetric] length_leaves_spec)
  have b3: "last blocks \<noteq> []"
    using write_close_1 [of H "last parts"] l1 ne by (auto simp: blocks_def last_map)
  have b4: "length (last blocks) \<le> 2 ^ j"
  proof -
    let ?n = "length (last parts)"
    have "?n div MiB + (if ?n mod MiB = 0 then 0 else 1) \<le> 2 ^ j"
    proof (cases "?n mod MiB = 0")
      case True
      have "?n div MiB \<le> (2 ^ j * MiB) div MiB" by (rule div_le_mono [OF l2])
      then show ?thesis using True MiB_pos by simp
    next
      case False
      then have "?n \<noteq> 2 ^ j * MiB" by auto
      with l2 have "?n < 2 ^ j * MiB" by simp
      then have "?n div MiB < 2 ^ j" using MiB_pos by (simp add: less_mult_imp_div_less)
      then show ?thesis using False by simp
    qed
    then show ?thesis using ne by (simp add: blocks_def last_map length_leaves_spec)
  qed
  have al: "\<forall>p \<in> set (butlast parts). \<exists>k. length p = k * MiB" using eq by blast
  have "reduce_spec H roots = reduce_spec H (concat blocks)"
    unfolding roots_def by (rule reduce_blocks [OF b1 b2 b3 b4])
  also have "concat blocks = leaves_spec H (concat parts)"
    unfolding blocks_def by (rule leaves_spec_concat [OF al, symmetric])
  finally have root: "root_of H roots = root_of H (leaves_spec H (concat parts))"
    by (simp add: root_of_def)
  have "concat parts \<noteq> []" using nonempty ne by (cases parts) auto
  then have whole: "part_tree_hash H (concat parts)
      = Inr (EncodeToString (root_of H (leaves_spec H (concat parts))))"
    by (rule part_tree_hash_eq)
  show ?thesis using multi whole root by (simp add: root_of_def)
qed

theorem multipart_tree_hash_equal_parts_witness:
  "[replicate (2 * MiB) 0, replicate (2 * MiB) 0, [7 :: byte]] \<noteq> []
   \<and> length (replicate (2 * MiB) (0 :: byte)) = 2 ^ 1 * MiB
   \<and> last [replicate (2 * MiB) 0, replicate (2 * MiB) 0, [7 :: byte]] \<noteq> []
   \<and> length (last [replicate (2 * MiB) 0, replicate (2 * MiB) 0, [7 :: byte]]) \<le> 2 ^ 1 * MiB
   \<and> multipart_tree_hash sample_Sum256 [replicate (2 * MiB) 0, replicate (2 * MiB) 0, [7]]
       = part_tree_hash sample_Sum256 (concat [replicate (2 * MiB) 0, replicate (2 * MiB) 0, [7]])"
proof -
  have h: "\<forall>bs. length (sample_Sum256 bs) = 32"
    by (auto simp: sample_Sum256_def min_def)
  have p: "\<forall>p \<in> set (butlast [replicate (2 * MiB) 0, replicate (2 * MiB) 0, [7 :: byte]]).
      length p = 2 ^ 1 * MiB"
    by simp
  have l: "length (last [replicate (2 * MiB) 0, replicate (2 * MiB) 0, [7 :: byte]]) \<le> 2 ^ 1 * MiB"
    by (simp add: MiB_def)
  show ?thesis
    using l multipart_tree_hash_equal_parts [OF h _ p _ l] by simp
qed

text \<open>
  Whatever the digest function is, as long as it returns 32 bytes: for four chunks of
  1 MiB, split into a part of three chunks and a part of one, the two sides hash
  different texts.
\<close>

lemma leaves_spec_chunk:
  assumes "length c = MiB"
  shows "leaves_spec H (c @ rest) = H c # leaves_spec H rest"
proof -
  have c: "length c = 1 * MiB" using assms by simp
  have "leaves_spec H c = [H c]"
    using assms MiB_pos
    by (simp add: leaves_spec_def full_chunks_step full_chunks_small body_rest_def)
  then show ?thesis using leaves_spec_append [OF c, of H rest] by simp
qed

lemma leaves_spec_Nil: "leaves_spec H [] = []"
  by (simp add: leaves_spec_def full_chunks_small body_small MiB_pos)

lemma multipart_three_and_one_any_digest:
  assumes H: "\<forall>bs. length (H bs) = 32"
    and c: "length c1 = MiB" "length c2 = MiB" "length c3 = MiB" "length c4 = MiB"
  shows "multipart_tree_hash H [c1 @ c2 @ c3, c4]
      = Inr (EncodeToString (H (H (H (H c1 @ H c2) @ H c3) @ H c4)))"
    and "part_tree_hash H (concat [c1 @ c2 @ c3, c4])
      = Inr (EncodeToString (H (H (H c1 @ H c2) @ H (H c3 @ H c4))))"
proof -
  have ne: "c1 @ c2 @ c3 \<noteq> []" "c4 \<noteq> []" "c1 @ c2 @ c3 @ c4 \<noteq> []"
    using c MiB_pos by auto
  have l3: "leaves_spec H (c1 @ c2 @ c3) = [H c1, H c2, H c3]"
    using leaves_spec_chunk [OF c(1), of H "c2 @ c3"] leaves_spec_chunk [OF c(2), of H c3]
      leaves_spec_chunk [OF c(3), of H "[]"] by (simp add: leaves_spec_Nil)
  have l1: "leaves_spec H c4 = [H c4]"
    using leaves_spec_chunk [OF c(4), of H "[]"] by (simp add: leaves_spec_Nil)
  have l4: "leaves_spec H (c1 @ c2 @ c3 @ c4) = [H c1, H c2, H c3, H c4]"
    using leaves_spec_chunk [OF c(1), of H "c2 @ c3 @ c4"]
      leaves_spec_chunk [OF c(2), of H "c3 @ c4"] leaves_spec_chunk [OF c(3), of H c4] l1
    by simp
  have "reduce_spec H [H c1, H c2, H c3, H c4] = reduce_spec H (level_spec H [H c1, H c2, H c3, H c4])"
    by (simp only: reduce_spec_level)
  then have r4: "root_of H [H c1, H c2, H c3, H c4] = H (H (H c1 @ H c2) @ H (H c3 @ H c4))"
    by (simp add: root_of_def reduce_spec_two)
  let ?r3 = "H (H (H c1 @ H c2) @ H c3)"
  have hs: "part_tree_hashes H [c1 @ c2 @ c3, c4] = Inr (map EncodeToString [?r3, H c4])"
    using part_tree_hash_eq [OF ne(1), of H] part_tree_hash_eq [OF ne(2), of H]
    by (simp add: bind_def l3 l1 root_of_def reduce_spec_three reduce_spec_one)
  have adds: "Adds \<lparr>part_nodes = []\<rparr> (map EncodeToString [?r3, H c4]) = Inr \<lparr>part_nodes = [?r3, H c4]\<rparr>"
    using Adds_digests [of "[?r3, H c4]" "\<lparr>part_nodes = []\<rparr>"] H by simp
  obtain t' where ch: "CreateHash H \<lparr>part_nodes = [?r3, H c4]\<rparr>
      = Inr (EncodeToString (H (?r3 @ H c4)), t')"
    using CreateHash_eq [of "[?r3, H c4]" H] by (auto simp: root_of_def reduce_spec_two)
  show "multipart_tree_hash H [c1 @ c2 @ c3, c4]
      = Inr (EncodeToString (H (H (H (H c1 @ H c2) @ H c3) @ H c4)))"
    using hs adds ch by (simp add: multipart_tree_hash_def bind_def)
  show "part_tree_hash H (concat [c1 @ c2 @ c3, c4])
      = Inr (EncodeToString (H (H (H c1 @ H c2) @ H (H c3 @ H c4))))"
    using part_tree_hash_eq [OF ne(3), of H] by (simp add: l4 r4)
qed

text \<open>
  C4 as stated fails: a body of 4 MiB of zero bytes is split into a part of 3 MiB and a
  part of 1 MiB, both 1 MiB-aligned. With the leaves \<open>c\<close> the parts give
  \<open>H (H (H (c @ c) @ c) @ c)\<close>, the whole body gives \<open>H (H (c @ c) @ H (c @ c))\<close>.
\<close>

theorem multipart_tree_hash_counterexample:
  "multipart_tree_hash sample_Sum256 [replicate (3 * MiB) 0, replicate MiB 0]
     = Inr ''0101010100000000000000000000000000000000000000000000000000000000''
   \<and> part_tree_hash sample_Sum256 (concat [replicate (3 * MiB) 0, replicate MiB 0])
     = Inr ''0101010000000000000000000000000000000000000000000000000000000000''"
proof -
  let ?H = sample_Sum256
  let ?c = "1 # replicate 31 (0 :: byte)"
  let ?r3 = "1 # 1 # 1 # replicate 29 (0 :: byte)"
  let ?r4 = "1 # 1 # 1 # 1 # replicate 28 (0 :: byte)"
  have ne: "replicate (k * MiB) (0 :: byte) \<noteq> []" if "0 < k" for k
    using that MiB_pos by simp
  have l3: "leaves_spec ?H (replicate (3 * MiB) 0) = [?c, ?c, ?c]"
    using leaves_spec_replicate [of ?H 3 0] by (simp add: sample_chunk numeral_3_eq_3)
  have l1: "leaves_spec ?H (replicate MiB 0) = [?c]"
    using leaves_spec_replicate [of ?H 1 0] by (simp add: sample_chunk)
  have "concat [replicate (3 * MiB) 0, replicate MiB (0 :: byte)] = replicate (4 * MiB) 0"
    by (simp add: replicate_add [symmetric])
  then have l4: "leaves_spec ?H (concat [replicate (3 * MiB) 0, replicate MiB 0]) = [?c, ?c, ?c, ?c]"
    using leaves_spec_replicate [of ?H 4 0] by (simp add: sample_chunk eval_nat_numeral)
  have r3: "root_of ?H [?c, ?c, ?c] = ?r3"
    by (simp add: root_of_def reduce_spec_three sample_Sum256_def)
  have r1: "root_of ?H [?c] = ?c"
    by (simp add: root_of_def reduce_spec_one)
  have r2: "root_of ?H [?r3, ?c] = ?r4"
    by (simp add: root_of_def reduce_spec_two sample_Sum256_def)
  have "reduce_spec ?H [?c, ?c, ?c, ?c] = reduce_spec ?H (level_spec ?H [?c, ?c, ?c, ?c])"
    by (simp only: reduce_spec_level)
  then have r4: "root_of ?H [?c, ?c, ?c, ?c] = ?r3"
    by (simp add: root_of_def reduce_spec_two sample_Sum256_def)
  have hs: "part_tree_hashes ?H [replicate (3 * MiB) 0, replicate MiB 0]
      = Inr (map EncodeToString [?r3, ?c])"
    using part_tree_hash_eq [OF ne [of 3], of ?H] part_tree_hash_eq [OF ne [of 1], of ?H]
    by (simp add: bind_def l3 l1 r3 r1)
  have adds: "Adds \<lparr>part_nodes = []\<rparr> (map EncodeToString [?r3, ?c]) = Inr \<lparr>part_nodes = [?r3, ?c]\<rparr>"
    using Adds_digests [of "[?r3, ?c]" "\<lparr>part_nodes = []\<rparr>"] by simp
  obtain t' where ch: "CreateHash ?H \<lparr>part_nodes = [?r3, ?c]\<rparr> = Inr (EncodeToString ?r4, t')"
    using CreateHash_eq [of "[?r3, ?c]" ?H] by (auto simp: r2)
  have multi: "multipart_tree_hash ?H [replicate (3 * MiB) 0, replicate MiB 0]
      = Inr (EncodeToString ?r4)"
    using hs adds ch by (simp add: multipart_tree_hash_def bind_def)
  have "concat [replicate (3 * MiB) 0, replicate MiB (0 :: byte)] \<noteq> []"
    using MiB_pos by simp
  from part_tree_hash_eq [OF this, of ?H]
  have whole: "part_tree_hash ?H (concat [replicate (3 * MiB) 0, replicate MiB 0])
      = Inr (EncodeToString ?r3)"
    by (simp only: l4 r4)
  have e4: "EncodeToString ?r4 = ''0101010100000000000000000000000000000000000000000000000000000000''"
    by (simp add: EncodeToString_def hextable_def drop_bit_eq_div) (simp add: eval_nat_numeral)
  have e3: "EncodeToString ?r3 = ''0101010000000000000000000000000000000000000000000000000000000000''"
    by (simp add: EncodeToString_def hextable_def drop_bit_eq_div) (simp add: eval_nat_numeral)
  show ?thesis using multi whole e3 e4 by (simp only:) 
qed

section \<open>encode\<close>

lemma table_fold:
  "n < length tab \<Longrightarrow>
   foldl (\<lambda>tab c. tab[of_char c := True]) tab cs ! n = (tab ! n \<or> n \<in> of_char ` set cs)"
proof (induction cs arbitrary: tab)
  case Nil
  then show ?case by simp
next
  case (Cons c cs)
  have len: "n < length (tab[of_char c := True])" using Cons.prems by simp
  have "tab[of_char c := True] ! n = (tab ! n \<or> n = of_char c)"
    using Cons.prems by (cases "n = of_char c") simp_all
  with Cons.IH [OF len] show ?case by auto
qed

lemma length_table_fold:
  "length (foldl (\<lambda>tab c. tab[of_char c := True]) tab cs) = length tab"
  by (induction cs arbitrary: tab) simp_all

lemma u_codes:
  "map of_char init_u = [65..<91] @ [97..<123] @ [48..<58] @ [48, 45, 95, 46, 126 :: nat]"
  by (simp add: init_u_def)

lemma is_unreserved_set: "is_unreserved c \<longleftrightarrow> (of_char c :: nat) \<in> of_char ` set init_u"
proof -
  have "of_char ` set init_u = set (map of_char init_u :: nat list)" by simp
  also have "\<dots> = {65..<91} \<union> {97..<123} \<union> {48..<58} \<union> {48, 45, 95, 46, 126}"
    unfolding u_codes by (simp only: set_append set_upt list.set) auto
  finally show ?thesis
    unfolding is_unreserved_def Let_def by (simp only:) auto
qed

lemma is_unreserved_ascii: "is_unreserved c \<Longrightarrow> (of_char c :: nat) \<le> 127"
  by (auto simp: is_unreserved_def Let_def)

lemma must_escape_eq: "must_escape c = Inr (\<not> is_unreserved c)"
proof (cases "127 < (of_char c :: nat)")
  case True
  then show ?thesis using is_unreserved_ascii [of c] by (auto simp: must_escape_def)
next
  case False
  then have n: "(of_char c :: nat) < 128" by simp
  then have "unreserved ! of_char c = is_unreserved c"
    using table_fold [of "of_char c" "replicate 128 False" init_u]
    by (simp add: unreserved_def is_unreserved_set)
  then show ?thesis
    using False n by (simp add: must_escape_def index_def bind_def unreserved_def length_table_fold)
qed

lemma encode_scan_eq:
  "encode_scan s i = Inr (\<not> list_all is_unreserved (drop i s))"
proof (induction s i rule: encode_scan.induct)
  case (1 s i)
  show ?case
  proof (cases "i < length s")
    case False
    then show ?thesis by (subst encode_scan.simps) simp
  next
    case True
    then have d: "drop i s = s ! i # drop (Suc i) s" by (simp add: Cons_nth_drop_Suc)
    show ?thesis
    proof (cases "is_unreserved (s ! i)")
      case u: True
      have "encode_scan s (Suc i) = Inr (\<not> list_all is_unreserved (drop (Suc i) s))"
        using "1.IH" [OF True, of False] by simp
      then show ?thesis using True u d
        by (subst encode_scan.simps) (simp add: index_def must_escape_eq bind_def)
    next
      case False
      then show ?thesis using True d
        by (subst encode_scan.simps) (simp add: index_def must_escape_eq bind_def)
    qed
  qed
qed

lemma hex_upper_index:
  "index hex_upper (int (of_char c div 16)) = Inr (hex_upper ! (of_char c div 16))"
  "index hex_upper (int (of_char c mod 16)) = Inr (hex_upper ! (of_char c mod 16))"
proof -
  have "(of_char c :: nat) mod 256 = of_char c" by (rule of_char_mod_256)
  then have "(of_char c :: nat) < 256" by (metis mod_less_divisor zero_less_numeral)
  then have "(of_char c :: nat) div 16 < 16" by arith
  then show "index hex_upper (int (of_char c div 16)) = Inr (hex_upper ! (of_char c div 16))"
    by (simp add: index_def hex_upper_def)
  show "index hex_upper (int (of_char c mod 16)) = Inr (hex_upper ! (of_char c mod 16))"
    by (simp add: index_def hex_upper_def)
qed

lemma length_escape_char: "length (escape_char c) \<le> 3"
  by (simp add: escape_char_def)

lemma length_encode_spec: "length (encode_spec s) \<le> 3 * length s"
  by (induction s) (simp_all add: encode_spec_def escape_char_def)

lemma store_ok: "0 \<le> i \<Longrightarrow> nat i < length xs \<Longrightarrow> store xs i v = Inr (xs[nat i := v])"
  by (simp add: store_def)

lemma encode_loop_eq:
  "i \<le> length s \<Longrightarrow> length acc + 3 * (length s - i) \<le> length e \<Longrightarrow> take (length acc) e = acc \<Longrightarrow>
   \<exists>e'. encode_loop s e (int (length acc)) i
          = Inr (e', int (length (acc @ encode_spec (drop i s))))
        \<and> length e' = length e
        \<and> take (length (acc @ encode_spec (drop i s))) e' = acc @ encode_spec (drop i s)"
proof (induction s e "int (length acc)" i arbitrary: acc rule: encode_loop.induct)
  case (1 s e i)
  show ?case
  proof (cases "i < length s")
    case False
    with "1.prems" show ?thesis
      by (subst encode_loop.simps) (simp add: encode_spec_def)
  next
    case True
    let ?c = "s ! i"
    have d: "drop i s = ?c # drop (Suc i) s" using True by (simp add: Cons_nth_drop_Suc)
    have room: "length acc + 3 \<le> length e" using True "1.prems" by arith
    have ix: "index s (int i) = Inr ?c" using True by (simp add: index_def)
    have nats: "nat (1 + int (length acc)) = Suc (length acc)"
      "nat (int (length acc) + 2) = Suc (Suc (length acc))" by simp_all
    show ?thesis
    proof (cases "is_unreserved ?c")
      case u: True
      let ?encode_spec_examples = "e[length acc := ?c]"
      let ?acc = "acc @ [?c]"
      have t: "take (length ?acc) ?encode_spec_examples = ?acc"
        using room "1.prems"(3) by (simp add: take_Suc_conv_app_nth)
      have "\<exists>e'. encode_loop s ?encode_spec_examples (int (length ?acc)) (Suc i)
          = Inr (e', int (length (?acc @ encode_spec (drop (Suc i) s))))
        \<and> length e' = length ?encode_spec_examples
        \<and> take (length (?acc @ encode_spec (drop (Suc i) s))) e' = ?acc @ encode_spec (drop (Suc i) s)"
        using "1.hyps"(2) [where acc = ?acc and xb = ?encode_spec_examples and xa = False] True "1.prems" room t u
        by simp
      then show ?thesis
        using True u d room
        by (subst encode_loop.simps)
          (simp add: ix must_escape_eq store_def bind_def encode_spec_def escape_char_def add_ac)
    next
      case u: False
      let ?h1 = "hex_upper ! (of_char ?c div 16)"
      let ?h2 = "hex_upper ! (of_char ?c mod 16)"
      let ?e3 = "e[length acc := CHR ''%'', Suc (length acc) := ?h1, Suc (Suc (length acc)) := ?h2]"
      let ?acc = "acc @ [CHR ''%'', ?h1, ?h2]"
      have t: "take (length ?acc) ?e3 = ?acc"
        using room "1.prems"(3) by (simp add: take_Suc_conv_app_nth nth_list_update)
      have "\<exists>e'. encode_loop s ?e3 (int (length ?acc)) (Suc i)
          = Inr (e', int (length (?acc @ encode_spec (drop (Suc i) s))))
        \<and> length e' = length ?e3
        \<and> take (length (?acc @ encode_spec (drop (Suc i) s))) e' = ?acc @ encode_spec (drop (Suc i) s)"
        using "1.hyps"(1) [where acc = ?acc and xc = ?e3 and xa = True] True "1.prems" room t u
        by simp
      then show ?thesis
        using True u d room
        by (subst encode_loop.simps)
          (simp add: ix nats must_escape_eq store_def bind_def encode_spec_def escape_char_def
            hex_upper_index add_ac)
    qed
  qed
qed

lemma encode_eq: "encode s = Inr (encode_spec s)"
proof (cases "list_all is_unreserved s")
  case True
  then have "encode_spec s = s"
    by (induction s) (simp_all add: encode_spec_def escape_char_def)
  then show ?thesis using True by (simp add: encode_def encode_scan_eq bind_def)
next
  case False
  obtain e' where e': "encode_loop s (replicate (length s * 3) (CHR 0x00)) 0 0
      = Inr (e', int (length (encode_spec s)))"
    "length e' = length s * 3" "take (length (encode_spec s)) e' = encode_spec s"
    using encode_loop_eq [of 0 s "[]" "replicate (length s * 3) (CHR 0x00)"] by auto
  have "length (encode_spec s) \<le> length e'"
    using length_encode_spec [of s] e'(2) by simp
  then show ?thesis
    using False e' by (simp add: encode_def encode_scan_eq bind_def slice_to_def)
qed

section \<open>The canonical path\<close>

lemma ts_loop_ok: "i < int (length path) \<Longrightarrow> \<exists>b. ts_loop path i = Inr b"
proof (induction path i rule: ts_loop.induct)
  case (1 path i)
  show ?case
  proof (cases "0 < i")
    case False
    then show ?thesis by (subst ts_loop.simps) auto
  next
    case True
    have ix: "index path i = Inr (path ! nat i)" using True "1.prems" by (simp add: index_def)
    show ?thesis
    proof (cases "path ! nat i \<noteq> CHR ''/'' \<and> path ! nat i \<noteq> CHR ''.''")
      case t: True
      then show ?thesis using True by (subst ts_loop.simps) (auto simp: ix bind_def)
    next
      case False
      have "\<exists>b. ts_loop path (i - 1) = Inr b"
        using "1.IH" [OF True, of "path ! nat i"] False "1.prems" by auto
      then show ?thesis using True False by (subst ts_loop.simps) (auto simp: ix bind_def)
    qed
  qed
qed

lemma trailing_slash_ok: "path \<noteq> [] \<Longrightarrow> \<exists>b. trailing_slash path = Inr b"
  using ts_loop_ok [of "int (length path) - 2" path]
  by (auto simp: trailing_slash_def index_def bind_def)

lemma trailing_slash_empty: "trailing_slash [] = Inl IndexOutOfRange"
  by (simp add: trailing_slash_def index_def bind_def)

lemma Clean_nonempty: "Clean path \<noteq> []"
  by (simp add: Clean_def Let_def)

lemma cp_loop_eq:
  "cp_loop parts cp = Inr (cp @ concat (map (\<lambda>part. ''/'' @ encode_spec part) parts))"
  by (induction parts arbitrary: cp) (simp_all add: encode_eq bind_def)

text \<open>
  C10. For every non-empty path the trailing-slash check and the canonical path are
  computed without any index or slice bound out of range: the check returns its flag and
  the canonical path is a slash and the encoded text for every element of the cleaned
  path, with a slash behind them when the flag is set. For the empty path the first index
  into the path, \<^verbatim>\<open>r.URL.Path[len(r.URL.Path)-1]\<close>, panics.
\<close>

theorem canonical_path_in_bounds:
  "(path \<noteq> [] \<longrightarrow>
      (\<exists>ts. trailing_slash path = Inr ts
         \<and> CreateCanonicalRequest_cp path =
             Inr (concat (map (\<lambda>part. ''/'' @ encode_spec part) (Split (CHR ''/'') (drop 1 (Clean path))))
                  @ (if ts then ''/'' else []))))
   \<and> trailing_slash [] = Inl IndexOutOfRange
   \<and> CreateCanonicalRequest_cp [] = Inl IndexOutOfRange"
proof (intro conjI impI)
  assume "path \<noteq> []"
  then obtain ts where ts: "trailing_slash path = Inr ts"
    using trailing_slash_ok by blast
  have sl: "slice_from (Clean path) 1 = Inr (drop 1 (Clean path))"
    using Clean_nonempty [of path] by (cases "Clean path") (simp_all add: slice_from_def)
  have "CreateCanonicalRequest_cp path =
      Inr (concat (map (\<lambda>part. ''/'' @ encode_spec part) (Split (CHR ''/'') (drop 1 (Clean path))))
           @ (if ts then ''/'' else []))"
    unfolding CreateCanonicalRequest_cp_def ts sl cp_loop_eq by (simp add: bind_def)
  with ts show "\<exists>ts. trailing_slash path = Inr ts
         \<and> CreateCanonicalRequest_cp path =
             Inr (concat (map (\<lambda>part. ''/'' @ encode_spec part) (Split (CHR ''/'') (drop 1 (Clean path))))
                  @ (if ts then ''/'' else []))"
    by blast
next
  show "trailing_slash [] = Inl IndexOutOfRange" by (rule trailing_slash_empty)
next
  show "CreateCanonicalRequest_cp [] = Inl IndexOutOfRange"
    unfolding CreateCanonicalRequest_cp_def trailing_slash_empty by (simp add: bind_def)
qed

theorem canonical_path_in_bounds_witness:
  "''/a b/'' \<noteq> []
   \<and> trailing_slash ''/a b/'' = Inr True
   \<and> CreateCanonicalRequest_cp ''/a b/'' = Inr ''/a%20b/''"
proof -
  have ts: "trailing_slash ''/a b/'' = Inr True"
    by (simp add: trailing_slash_def index_def bind_def ts_loop.simps)
  have cl: "Clean ''/a b/'' = ''/a b''"
    by (simp add: Clean_def Clean_loop.simps)
  have en: "encode_spec ''a b'' = ''a%20b''"
    by (simp add: encode_spec_def escape_char_def is_unreserved_def hex_upper_def)
  show ?thesis
    using canonical_path_in_bounds [of "''/a b/''"] ts
    by (auto simp: cl en)
qed

section \<open>The canonical query string\<close>

lemma join_Cons: "xs \<noteq> [] \<Longrightarrow> join sep (x # xs) = x @ sep @ join sep xs"
  by (cases xs) simp_all

lemma sort_Nil_iff: "sort xs = [] \<longleftrightarrow> xs = []"
  by (metis length_sort length_0_conv)

lemma join_append:
  "xs \<noteq> [] \<Longrightarrow> ys \<noteq> [] \<Longrightarrow> join sep (xs @ ys) = join sep xs @ sep @ join sep ys"
  by (induction sep xs rule: join.induct) (auto simp: neq_Nil_conv)

lemma parameters_loop_eq:
  "ps \<noteq> [] \<Longrightarrow>
   parameters_loop key ps j cqs =
     Inr (cqs @ (if 0 < j then ''&'' else []) @ join ''&'' (map (\<lambda>p. render (key, p)) ps))"
proof (induction ps arbitrary: j cqs)
  case Nil
  then show ?case by simp
next
  case (Cons p ps)
  show ?case
  proof (cases "ps = []")
    case True
    then show ?thesis by (simp add: encode_eq bind_def render_def)
  next
    case False
    have ih: "parameters_loop key ps (Suc j) c =
        Inr (c @ ''&'' @ join ''&'' (map (\<lambda>p. render (key, p)) ps))" for c
      using Cons.IH [OF False, of "Suc j" c] by simp
    have "map (\<lambda>p. render (key, p)) ps \<noteq> []" using False by simp
    then have "join ''&'' (render (key, p) # map (\<lambda>p. render (key, p)) ps)
        = render (key, p) @ ''&'' @ join ''&'' (map (\<lambda>p. render (key, p)) ps)"
      by (rule join_Cons)
    then show ?thesis
      by (simp add: encode_eq bind_def ih) (simp add: render_def)
  qed
qed

lemma keys_loop_eq:
  "\<forall>k \<in> set ks. values_of query k \<noteq> [] \<Longrightarrow>
   keys_loop query ks i cqs =
     Inr (cqs @ (if 0 < i \<and> ks \<noteq> [] then ''&'' else [])
          @ join ''&'' (map render (concat (map (block query) ks))))"
proof (induction ks arbitrary: i cqs)
  case Nil
  then show ?case by simp
next
  case (Cons k ks)
  have ne: "sort (values_of query k) \<noteq> []"
    using Cons.prems by (metis list.set_intros(1) length_sort length_0_conv)
  have bl: "block query k \<noteq> []" using ne by (simp add: block_def)
  have pl: "parameters_loop k (sort (values_of query k)) 0 c
      = Inr (c @ join ''&'' (map render (block query k)))" for c
    using parameters_loop_eq [OF ne, of k 0 c] by (simp add: block_def comp_def)
  have ih: "keys_loop query ks (Suc i) c =
     Inr (c @ (if ks \<noteq> [] then ''&'' else [])
          @ join ''&'' (map render (concat (map (block query) ks))))" for c
    using Cons.IH [of "Suc i" c] Cons.prems by simp
  show ?case
  proof (cases "concat (map (block query) ks) = []")
    case True
    then have "ks = []" using Cons.prems
      by (cases ks) (auto simp: block_def sort_Nil_iff)
    then show ?thesis
      using pl by (simp add: bind_def values_of_def [symmetric])
  next
    case False
    then have "ks \<noteq> []" by auto
    then show ?thesis
      using pl ih False bl
      by (simp add: bind_def values_of_def [symmetric] join_append)
  qed
qed

lemma append_value_keys: "set (map fst (append_value m k v)) = insert k (set (map fst m))"
  by (induction m k v rule: append_value.induct) auto

lemma well_formed_append_value: "well_formed m \<Longrightarrow> well_formed (append_value m k v)"
proof (induction m k v rule: append_value.induct)
  case (1 k v)
  then show ?case by (simp add: well_formed_def)
next
  case (2 k' vs m k v)
  then show ?case
    using append_value_keys [of m k v] by (auto simp: well_formed_def)
qed

lemma well_formed_parseQuery:
  "well_formed m \<Longrightarrow> well_formed (fst (parseQuery m err query))"
proof (induction m err query rule: parseQuery.induct)
  case (1 m err query)
  show ?case
  proof (cases "query = []")
    case True
    then show ?thesis using "1.prems" by (subst parseQuery.simps) simp
  next
    case False
    obtain key query' where c: "Cut (CHR ''&'') query = (key, query')"
      by (cases "Cut (CHR ''&'') query")
    obtain key1 val where c1: "Cut (CHR ''='') key = (key1, val)"
      by (cases "Cut (CHR ''='') key")
    note ih = "1.IH" [OF False c [symmetric] refl]
    show ?thesis
    proof (cases "CHR '';'' \<in> set key")
      case True
      then show ?thesis
        using False c ih(1) [OF True "1.prems"] by (subst parseQuery.simps) simp
    next
      case semi: False
      show ?thesis
      proof (cases "key = []")
        case True
        then show ?thesis
          using False c semi ih(2) [OF semi True "1.prems"] by (subst parseQuery.simps) simp
      next
        case ne: False
        note ih' = ih(3-5) [OF semi ne c1 [symmetric] refl]
        show ?thesis
        proof (cases "QueryUnescape key1")
          case (Inl e)
          then show ?thesis
            using False c semi ne c1 ih'(1) [OF Inl "1.prems"]
            by (subst parseQuery.simps) simp
        next
          case k: (Inr k)
          show ?thesis
          proof (cases "QueryUnescape val")
            case (Inl e)
            then show ?thesis
              using False c semi ne c1 k ih'(2) [OF k Inl "1.prems"]
              by (subst parseQuery.simps) simp
          next
            case v: (Inr v)
            then show ?thesis
              using False c semi ne c1 k
                ih'(3) [OF k v well_formed_append_value [OF "1.prems"]]
              by (subst parseQuery.simps) simp
          qed
        qed
      qed
    qed
  qed
qed

lemma well_formed_ParseQuery: "well_formed (fst (ParseQuery raw))"
  using well_formed_parseQuery [of "[]" None raw] by (simp add: ParseQuery_def well_formed_def)

lemma values_of_entry:
  "distinct (map fst m) \<Longrightarrow> (k, vs) \<in> set m \<Longrightarrow> values_of m k = vs"
  by (simp add: values_of_def)

lemma mset_concat_map_cong:
  assumes "mset xs = mset ys"
  shows "mset (concat (map f xs)) = mset (concat (map f ys))"
proof -
  have "mset (concat (map f zs)) = sum_mset (image_mset (\<lambda>x. mset (f x)) (mset zs))" for zs
    by (induction zs) simp_all
  then show ?thesis using assms by simp
qed

lemma mset_blocks_entries:
  "distinct (map fst m) \<Longrightarrow>
   mset (concat (map (block m) (map fst m))) = mset (pairs_of m)"
proof -
  assume d: "distinct (map fst m)"
  have "\<forall>kv \<in> set m'. kv \<in> set m \<Longrightarrow>
    mset (concat (map (block m) (map fst m'))) = mset (pairs_of m')" for m'
  proof (induction m')
    case Nil
    then show ?case by (simp add: pairs_of_def)
  next
    case (Cons kv m')
    obtain k vs where kv: "kv = (k, vs)" by (cases kv)
    then have "values_of m k = vs" using Cons.prems d by (auto intro: values_of_entry)
    then have "mset (block m k) = mset (map (Pair k) vs)" by (simp add: block_def)
    then show ?case using Cons kv by (simp add: pairs_of_def)
  qed
  then show ?thesis by simp
qed

lemma sorted_blocks:
  "sorted ks \<Longrightarrow> distinct ks \<Longrightarrow> sorted_wrt key_then_value (concat (map (block m) ks))"
proof (induction ks)
  case Nil
  then show ?case by simp
next
  case (Cons k ks)
  have 1: "sorted_wrt key_then_value (block m k)"
    using sorted_sort [of "values_of m k"]
    by (simp add: block_def sorted_wrt_map key_then_value_def)
  have 2: "sorted_wrt key_then_value (concat (map (block m) ks))"
    using Cons by simp
  have 3: "key_then_value a b" if "a \<in> set (block m k)" and "b \<in> set (concat (map (block m) ks))" for a b
  proof -
    from that(1) have "fst a = k" by (auto simp: block_def)
    moreover from that(2) obtain k' where "k' \<in> set ks" "fst b = k'" by (auto simp: block_def)
    moreover have "k < k'" if "k' \<in> set ks" for k'
      using that Cons.prems by (auto simp: less_le)
    ultimately show ?thesis by (simp add: key_then_value_def)
  qed
  show ?case using 1 2 3 by (simp add: sorted_wrt_append)
qed

lemma canonical_query_eq:
  "\<exists>ps. mset ps = mset (pairs_of (fst (ParseQuery RawQuery)))
      \<and> sorted_wrt key_then_value ps
      \<and> CreateCanonicalRequest_cqs RawQuery =
          (case snd (ParseQuery RawQuery) of
             Some err \<Rightarrow> Inr (Inl err)
           | None \<Rightarrow> Inr (Inr (join ''&'' (map render ps))))"
proof -
  obtain q e where pq: "ParseQuery RawQuery = (q, e)" by (cases "ParseQuery RawQuery")
  have wf: "well_formed q" using well_formed_ParseQuery [of RawQuery] pq by simp
  let ?ks = "sort (map fst q)"
  let ?ps = "concat (map (block q) ?ks)"
  have d: "distinct (map fst q)" using wf by (simp add: well_formed_def)
  have "mset ?ps = mset (concat (map (block q) (map fst q)))"
    by (rule mset_concat_map_cong) simp
  then have m: "mset ?ps = mset (pairs_of q)"
    using mset_blocks_entries [OF d] by simp
  have s: "sorted_wrt key_then_value ?ps"
    using d by (intro sorted_blocks) simp_all
  have ne: "\<forall>k \<in> set ?ks. values_of q k \<noteq> []"
  proof
    fix k assume "k \<in> set ?ks"
    then obtain vs where kv: "(k, vs) \<in> set q" by auto
    then have "values_of q k = vs" using d by (rule values_of_entry [rotated])
    moreover have "vs \<noteq> []" using wf kv by (auto simp: well_formed_def)
    ultimately show "values_of q k \<noteq> []" by simp
  qed
  have "keys_loop q ?ks 0 [] = Inr (join ''&'' (map render ?ps))"
    using keys_loop_eq [OF ne, of 0 "[]"] by simp
  then have "CreateCanonicalRequest_cqs RawQuery =
      (case e of Some err \<Rightarrow> Inr (Inl err) | None \<Rightarrow> Inr (Inr (join ''&'' (map render ?ps))))"
    by (simp add: CreateCanonicalRequest_cqs_def pq bind_def split: option.split)
  then show ?thesis using m s pq by auto
qed

lemma ParseQuery_b2_a1_a3: "ParseQuery ''b=2&a=1&a=3'' = ([(''b'', [''2'']), (''a'', [''1'', ''3''])], None)"
  by (simp add: ParseQuery_def parseQuery.simps Cut_def)

lemma ParseQuery_minus_slash: "ParseQuery ''-=1&/=2'' = ([(''-'', [''1'']), (''/'', [''2''])], None)"
  by (simp add: ParseQuery_def parseQuery.simps Cut_def)

lemma encode_spec_examples: "encode_spec ''/'' = ''%2F''" "encode_spec ''-'' = ''-''"  "encode_spec ''1'' = ''1''"
  "encode_spec ''2'' = ''2''"  "encode_spec ''3'' = ''3''"  "encode_spec ''a'' = ''a''"
   "encode_spec ''b'' = ''b''"
  by (simp_all add: encode_spec_def escape_char_def is_unreserved_def hex_upper_def)

lemma canonical_query_b2_a1_a3: "CreateCanonicalRequest_cqs ''b=2&a=1&a=3'' = Inr (Inr ''a=1&a=3&b=2'')"
  by (simp add: CreateCanonicalRequest_cqs_def ParseQuery_b2_a1_a3 bind_def encode_eq encode_spec_examples)

lemma canonical_query_minus_slash: "CreateCanonicalRequest_cqs ''-=1&/=2'' = Inr (Inr ''-=1&%2F=2'')"
  by (simp add: CreateCanonicalRequest_cqs_def ParseQuery_minus_slash bind_def encode_eq encode_spec_examples)

text \<open>
  C9, as the code has it. The raw query is decoded by \<^verbatim>\<open>url.ParseQuery\<close>; when that
  returns an error, so does the function. Otherwise the canonical query string is the
  \<^verbatim>\<open>key=value\<close> texts of all pairs of the parsed query, each key and each value
  encoded with only the unreserved characters kept, joined by \<^verbatim>\<open>&\<close>, one text per
  value of a repeated key; the pairs are ordered by key and then by value as they are
  after decoding, before they are encoded. \<^verbatim>\<open>encode\<close> never panics. The query
  \<^verbatim>\<open>b=2&a=1&a=3\<close> becomes \<^verbatim>\<open>a=1&a=3&b=2\<close>.
\<close>

theorem canonical_query_sorted_decoded:
  "(\<exists>ps. mset ps = mset (pairs_of (fst (ParseQuery RawQuery)))
      \<and> sorted_wrt key_then_value ps
      \<and> CreateCanonicalRequest_cqs RawQuery =
          (case snd (ParseQuery RawQuery) of
             Some err \<Rightarrow> Inr (Inl err)
           | None \<Rightarrow> Inr (Inr (join ''&'' (map render ps)))))
   \<and> encode s = Inr (encode_spec s)
   \<and> CreateCanonicalRequest_cqs ''b=2&a=1&a=3'' = Inr (Inr ''a=1&a=3&b=2'')"
  using canonical_query_eq [of RawQuery] encode_eq [of s] canonical_query_b2_a1_a3 by simp

text \<open>
  C9 as stated fails: the keys \<^verbatim>\<open>-\<close> and \<^verbatim>\<open>/\<close> are sorted as they are decoded,
  \<^verbatim>\<open>-\<close> first, and then encoded, so that \<^verbatim>\<open>-\<close> stands before \<^verbatim>\<open>%2F\<close>; as encoded
  keys \<^verbatim>\<open>%2F\<close> is the smaller one.
\<close>

theorem canonical_query_counterexample:
  "CreateCanonicalRequest_cqs ''-=1&/=2'' = Inr (Inr ''-=1&%2F=2'')
   \<and> encode ''-'' = Inr ''-'' \<and> encode ''/'' = Inr ''%2F''
   \<and> ''%2F'' < ''-''"
  by (simp add: canonical_query_minus_slash encode_eq encode_spec_examples)

end
